theory Spec2Isabelle
  imports Complex_Main "HOL-Library.Sublist" "HOL-Library.AList" "HOL-Library.Multiset"
begin

section \<open>Values and exceptions of the Python program\<close>

text \<open>
  The program handles three kinds of data: Python strings, the values that
  \<^verbatim>\<open>json.loads\<close> produces, and \<^verbatim>\<open>python-docx\<close> documents.

  A Python string is modelled as a \<^typ>\<open>string\<close> whose characters are the code
  points 0 to 255: \<^verbatim>\<open>k in s\<close> on strings is \<^const>\<open>sublist\<close> (a contiguous
  occurrence), \<^verbatim>\<open>s[:n]\<close> is \<^const>\<open>take\<close>, and \<^verbatim>\<open>s.lower()\<close> and
  \<^verbatim>\<open>s.strip()\<close> are what Python does on these code points.

  A JSON value is what \<^verbatim>\<open>json.loads\<close> returns: \<^verbatim>\<open>None\<close>, a bool, an
  int, a float (the real number it stands for), a str, a list or a dict. A
  dict is an association list read with \<^const>\<open>map_of\<close>, its keys in the
  order of their first insertion.
\<close>

datatype json =
    JNull
  | JBool bool
  | JInt int
  | JFloat real
  | JStr string
  | JArr "json list"
  | JObj "(string \<times> json) list"

datatype exn = AttributeError | TypeError | IndexError | KeyError | ValueError | CollaboratorError

text \<open>
  \<^verbatim>\<open>str.lower\<close>: the letters A to Z, and the upper-case letters of Latin-1
  (192 to 222 but the multiplication sign 215), move up by 32.
\<close>

definition lower_char :: "char \<Rightarrow> char" where
  "lower_char c =
     (let n = (of_char c :: nat)
      in if (65 \<le> n \<and> n \<le> 90) \<or> (192 \<le> n \<and> n \<le> 222 \<and> n \<noteq> 215)
         then char_of (n + 32) else c)"

definition lower :: "string \<Rightarrow> string" where
  "lower s = map lower_char s"

text \<open>
  \<^verbatim>\<open>str.strip\<close> removes the characters \<^verbatim>\<open>str.isspace\<close> accepts from both
  ends: tab to carriage return, the four separators 28 to 31, the blank, and
  the Latin-1 characters 133 and 160.
\<close>

definition isspace :: "char \<Rightarrow> bool" where
  "isspace c =
     (let n = (of_char c :: nat)
      in (9 \<le> n \<and> n \<le> 13) \<or> (28 \<le> n \<and> n \<le> 32) \<or> n = 133 \<or> n = 160)"

definition strip :: "string \<Rightarrow> string" where
  "strip s = rev (dropWhile isspace (rev (dropWhile isspace s)))"

text \<open>\<^verbatim>\<open>sep.join(parts)\<close>\<close>

fun join :: "string \<Rightarrow> string list \<Rightarrow> string" where
  "join sep [] = []"
| "join sep [p] = p"
| "join sep (p # q # ps) = p @ sep @ join sep (q # ps)"

text \<open>Python truthiness, as \<^verbatim>\<open>not x\<close>, \<^verbatim>\<open>x or y\<close> and \<^verbatim>\<open>if x\<close> test it.\<close>

fun truthy :: "json \<Rightarrow> bool" where
  "truthy JNull = False"
| "truthy (JBool b) = b"
| "truthy (JInt n) = (n \<noteq> 0)"
| "truthy (JFloat x) = (x \<noteq> 0)"
| "truthy (JStr s) = (s \<noteq> [])"
| "truthy (JArr xs) = (xs \<noteq> [])"
| "truthy (JObj kvs) = (kvs \<noteq> [])"

text \<open>\<^verbatim>\<open>x.get(k, d)\<close>: only a dict has the method.\<close>

fun py_get :: "json \<Rightarrow> string \<Rightarrow> json \<Rightarrow> exn + json" where
  "py_get (JObj kvs) k d = Inr (case map_of kvs k of None \<Rightarrow> d | Some v \<Rightarrow> v)"
| "py_get _ k d = Inl AttributeError"

text \<open>\<^verbatim>\<open>x.lower()\<close>: only a str has the method.\<close>

fun py_lower :: "json \<Rightarrow> exn + string" where
  "py_lower (JStr s) = Inr (lower s)"
| "py_lower _ = Inl AttributeError"

text \<open>
  \<^verbatim>\<open>x[:50]\<close>: a str and a list can be sliced, the scalars cannot, and a
  dict has no such key (its exception is a \<^verbatim>\<open>TypeError\<close> up to Python 3.11
  and a \<^verbatim>\<open>KeyError\<close> from 3.12 on; the model has the first).
\<close>

fun py_slice50 :: "json \<Rightarrow> exn + json" where
  "py_slice50 (JStr s) = Inr (JStr (take 50 s))"
| "py_slice50 (JArr xs) = Inr (JArr (take 50 xs))"
| "py_slice50 _ = Inl TypeError"

text \<open>
  \<^verbatim>\<open>for x in v\<close>: a list yields its elements, a str its characters, a dict its
  keys; nothing else is iterable.
\<close>

fun py_iter :: "json \<Rightarrow> exn + json list" where
  "py_iter (JArr xs) = Inr xs"
| "py_iter (JStr s) = Inr (map (\<lambda>c. JStr [c]) s)"
| "py_iter (JObj kvs) = Inr (map (\<lambda>k. JStr k) (rev (remdups (rev (map fst kvs)))))"
| "py_iter _ = Inl TypeError"

section \<open>The two tables\<close>

definition ADGM_CHECKLISTS :: "(string \<times> string list) list" where
  "ADGM_CHECKLISTS =
     [(''Company Incorporation'',
       [''Articles of Association'',
        ''Memorandum of Association'',
        ''Incorporation Application Form'',
        ''UBO Declaration Form'',
        ''Register of Members and Directors''])]"

definition DOC_TYPE_KEYWORDS :: "(string \<times> string list) list" where
  "DOC_TYPE_KEYWORDS =
     [(''Articles of Association'', [''articles of association'', ''aoa'', ''articles'']),
      (''Memorandum of Association'', [''memorandum of association'', ''moa'', ''memorandum'']),
      (''Incorporation Application Form'', [''incorporation application'']),
      (''UBO Declaration Form'', [''ubo declaration'']),
      (''Register of Members and Directors'', [''register of members'', ''register of directors''])]"

section \<open>classify_document\<close>

text \<open>\<^verbatim>\<open>any(k in text_l for k in keys)\<close>\<close>

fun any_key_in :: "string list \<Rightarrow> string \<Rightarrow> bool" where
  "any_key_in [] text_l = False"
| "any_key_in (k # keys) text_l = (if sublist k text_l then True else any_key_in keys text_l)"

text \<open>
  The loop over \<^verbatim>\<open>DOC_TYPE_KEYWORDS.items()\<close>, which a dict yields in
  the order of its declaration, with the \<^verbatim>\<open>return\<close> after the loop.
\<close>

fun classify_loop :: "(string \<times> string list) list \<Rightarrow> string \<Rightarrow> string" where
  "classify_loop [] text_l = ''Unknown Document Type''"
| "classify_loop ((doc_type, keys) # rest) text_l =
     (if any_key_in keys text_l then doc_type else classify_loop rest text_l)"

text \<open>
  The argument is a \<^typ>\<open>string option\<close>: \<^verbatim>\<open>None\<close> is a value the
  expression \<^verbatim>\<open>(text or "")\<close> is there for.
\<close>

definition classify_document :: "string option \<Rightarrow> string" where
  "classify_document text =
     (let text_l = lower (case text of None \<Rightarrow> [] | Some s \<Rightarrow> if s \<noteq> [] then s else [])
      in classify_loop DOC_TYPE_KEYWORDS text_l)"

section \<open>The checklist audit\<close>

text \<open>
  \<^verbatim>\<open>missing = [d for d in required_docs if d not in detected_types]\<close>, then
  \<^verbatim>\<open>missing[0] if missing else None\<close>.
\<close>

definition missing :: "string list \<Rightarrow> string list \<Rightarrow> string list" where
  "missing required_docs detected_types = filter (\<lambda>d. d \<notin> set detected_types) required_docs"

definition first_missing :: "string list \<Rightarrow> string list \<Rightarrow> string option" where
  "first_missing required_docs detected_types =
     (case missing required_docs detected_types of [] \<Rightarrow> None | d # _ \<Rightarrow> Some d)"

section \<open>_extract_json_from_text\<close>

text \<open>
  \<^verbatim>\<open>json.loads\<close> is a parameter \<open>loads\<close> of the model: it returns a value
  or raises. \<^verbatim>\<open>text.find(c)\<close> is the index of the first \<open>c\<close>, or -1;
  \<^verbatim>\<open>text[i]\<close> raises outside the string; \<^verbatim>\<open>text[a:b]\<close> is a slice.
\<close>

definition str_find :: "string \<Rightarrow> char \<Rightarrow> int" where
  "str_find text c =
     (if c \<in> set text then int (length (takeWhile (\<lambda>x. x \<noteq> c) text)) else - 1)"

definition str_at :: "string \<Rightarrow> nat \<Rightarrow> exn + char" where
  "str_at text i = (if i < length text then Inr (text ! i) else Inl IndexError)"

definition slice :: "string \<Rightarrow> nat \<Rightarrow> nat \<Rightarrow> string" where
  "slice text a b = take (b - a) (drop a text)"

text \<open>
  The loop \<^verbatim>\<open>for i in range(start, len(text))\<close> with its counter
  \<^verbatim>\<open>depth\<close>; the bare \<^verbatim>\<open>except\<close> turns every exception of
  \<^verbatim>\<open>json.loads\<close> into the empty dict, and so does leaving the loop.
\<close>

function scan_braces ::
  "(string \<Rightarrow> exn + json) \<Rightarrow> string \<Rightarrow> nat \<Rightarrow> nat \<Rightarrow> int \<Rightarrow> exn + json" where
  "scan_braces loads text start i depth =
     (if i < length text then
        (case str_at text i of
           Inl e \<Rightarrow> Inl e
         | Inr c \<Rightarrow>
             if c = CHR ''{'' then scan_braces loads text start (i + 1) (depth + 1)
             else if c = CHR ''}'' then
               (if depth - 1 = 0 then
                  (case loads (slice text start (i + 1)) of
                     Inl e \<Rightarrow> Inr (JObj [])
                   | Inr v \<Rightarrow> Inr v)
                else scan_braces loads text start (i + 1) (depth - 1))
             else scan_braces loads text start (i + 1) depth)
      else Inr (JObj []))"
  by pat_completeness auto
termination
  by (relation "measure (\<lambda>(loads, text, start, i, depth). length text - i)") auto

definition extract_json_from_text :: "(string \<Rightarrow> exn + json) \<Rightarrow> string \<Rightarrow> exn + json" where
  "extract_json_from_text loads text =
     (let start = str_find text (CHR ''{'')
      in if start = - 1 then Inr (JObj [])
         else scan_braces loads text (nat start) (nat start) 0)"

text \<open>
  The specification's words for the span the routine parses: the first
  balanced span of a text starts at the text's first opening brace and ends
  at the first closing brace that brings the count of opening braces minus
  closing braces, over all characters of the span, back to zero.
\<close>

definition brace_depth :: "string \<Rightarrow> int" where
  "brace_depth s = int (count_list s (CHR ''{'')) - int (count_list s (CHR ''}''))"

definition first_balanced_span :: "string \<Rightarrow> string \<Rightarrow> bool" where
  "first_balanced_span text sp \<longleftrightarrow>
     (\<exists>pre post. text = pre @ sp @ post \<and> CHR ''{'' \<notin> set pre
        \<and> sp \<noteq> [] \<and> hd sp = CHR ''{'' \<and> brace_depth sp = 0
        \<and> (\<forall>n. 0 < n \<and> n < length sp \<longrightarrow> 0 < brace_depth (take n sp)))"

section \<open>A JSON reader for the examples\<close>

text \<open>
  The theorems about the extraction hold for every \<open>loads\<close>. The examples
  need one, and \<open>json_loads\<close> reads the part of JSON they are written in, as
  \<^verbatim>\<open>json.loads\<close> does: objects, arrays, strings without escapes, integers
  and the three literals, separated by blanks, tabs and line ends; a key
  that comes twice keeps its first place and its last value. On any other
  text it raises, which \<^verbatim>\<open>json.loads\<close> does not on floats or escapes: no
  example uses those. The first argument of the three readers bounds the
  depth of the recursion by the length of the text.
\<close>

definition is_json_ws :: "char \<Rightarrow> bool" where
  "is_json_ws c \<longleftrightarrow> c = CHR '' '' \<or> c = CHR 0x09 \<or> c = CHR 0x0A \<or> c = CHR 0x0D"

definition skip_ws :: "string \<Rightarrow> string" where
  "skip_ws s = dropWhile is_json_ws s"

definition is_digit :: "char \<Rightarrow> bool" where
  "is_digit c \<longleftrightarrow> (48 :: nat) \<le> of_char c \<and> (of_char c :: nat) \<le> 57"

text \<open>The characters of a string up to its closing quote, and the rest.\<close>

fun read_string :: "string \<Rightarrow> (string \<times> string) option" where
  "read_string [] = None"
| "read_string (c # cs) =
     (if c = CHR 0x22 then Some ([], cs)
      else if c = CHR 0x5C \<or> (of_char c :: nat) < 32 then None
      else (case read_string cs of None \<Rightarrow> None | Some (s, rest) \<Rightarrow> Some (c # s, rest)))"

definition digits_value :: "string \<Rightarrow> int" where
  "digits_value ds = foldl (\<lambda>n c. 10 * n + (int (of_char c) - 48)) 0 ds"

text \<open>
  An integer: an optional minus sign, then 0 or digits that do not start
  with 0; a following point or exponent would make it a float.
\<close>

definition read_int :: "string \<Rightarrow> (int \<times> string) option" where
  "read_int s =
     (let neg = (s \<noteq> [] \<and> hd s = CHR ''-'');
          body = (if neg then tl s else s);
          ds = takeWhile is_digit body;
          rest = dropWhile is_digit body
      in if ds = [] \<or> (hd ds = CHR ''0'' \<and> length ds > 1) then None
         else if rest \<noteq> [] \<and> hd rest \<in> {CHR ''.'', CHR ''e'', CHR ''E''} then None
         else Some (if neg then - digits_value ds else digits_value ds, rest))"

fun read_value :: "nat \<Rightarrow> string \<Rightarrow> (json \<times> string) option"
  and read_members :: "nat \<Rightarrow> (string \<times> json) list \<Rightarrow> string \<Rightarrow> ((string \<times> json) list \<times> string) option"
  and read_elements :: "nat \<Rightarrow> json list \<Rightarrow> string \<Rightarrow> (json list \<times> string) option"
  where
  "read_value 0 s = None"
| "read_value (Suc n) s =
     (case skip_ws s of
        [] \<Rightarrow> None
      | c # r \<Rightarrow>
          if c = CHR ''{'' then
            (case skip_ws r of
               [] \<Rightarrow> None
             | d # r' \<Rightarrow>
                 if d = CHR ''}'' then Some (JObj [], r')
                 else (case read_members n [] (d # r') of
                         None \<Rightarrow> None
                       | Some (kvs, rest) \<Rightarrow> Some (JObj kvs, rest)))
          else if c = CHR ''['' then
            (case skip_ws r of
               [] \<Rightarrow> None
             | d # r' \<Rightarrow>
                 if d = CHR '']'' then Some (JArr [], r')
                 else (case read_elements n [] (d # r') of
                         None \<Rightarrow> None
                       | Some (xs, rest) \<Rightarrow> Some (JArr xs, rest)))
          else if c = CHR 0x22 then
            (case read_string r of
               None \<Rightarrow> None
             | Some (str, rest) \<Rightarrow> Some (JStr str, rest))
          else if take 4 (c # r) = ''true'' then Some (JBool True, drop 4 (c # r))
          else if take 5 (c # r) = ''false'' then Some (JBool False, drop 5 (c # r))
          else if take 4 (c # r) = ''null'' then Some (JNull, drop 4 (c # r))
          else (case read_int (c # r) of
                  None \<Rightarrow> None
                | Some (n, rest) \<Rightarrow> Some (JInt n, rest)))"
| "read_members 0 acc s = None"
| "read_members (Suc n) acc s =
     (case s of
        [] \<Rightarrow> None
      | c # r \<Rightarrow>
          if c \<noteq> CHR 0x22 then None
          else (case read_string r of
                  None \<Rightarrow> None
                | Some (k, r1) \<Rightarrow>
                    (case skip_ws r1 of
                       [] \<Rightarrow> None
                     | c1 # r2 \<Rightarrow>
                         if c1 \<noteq> CHR '':'' then None
                         else (case read_value n r2 of
                                 None \<Rightarrow> None
                               | Some (v, r3) \<Rightarrow>
                                   (case skip_ws r3 of
                                      [] \<Rightarrow> None
                                    | c2 # r4 \<Rightarrow>
                                        if c2 = CHR '','' then
                                          read_members n (AList.update k v acc) (skip_ws r4)
                                        else if c2 = CHR ''}'' then
                                          Some (AList.update k v acc, r4)
                                        else None)))))"
| "read_elements 0 acc s = None"
| "read_elements (Suc n) acc s =
     (case read_value n s of
        None \<Rightarrow> None
      | Some (v, r) \<Rightarrow>
          (case skip_ws r of
             [] \<Rightarrow> None
           | c # r' \<Rightarrow>
               if c = CHR '','' then read_elements n (acc @ [v]) r'
               else if c = CHR '']'' then Some (acc @ [v], r')
               else None))"

definition json_loads :: "string \<Rightarrow> exn + json" where
  "json_loads s =
     (case read_value (Suc (length s)) s of
        None \<Rightarrow> Inl ValueError
      | Some (v, rest) \<Rightarrow> if skip_ws rest = [] then Inr v else Inl ValueError)"

section \<open>run_rag_review\<close>

text \<open>
  The retrieval chain is a parameter: \<open>qa_run\<close> takes the prompt and returns
  the reviewer's answer, or raises. The prompt is an f-string of the name and
  the text of the document.
\<close>

definition review_prompt :: "string \<Rightarrow> string \<Rightarrow> string" where
  "review_prompt doc_name doc_text =
     ''Review the document for ADGM compliance issues.'' @ [CHR 0x0A]
     @ ''Output JSON only with fields: document, issues:[{section, issue, severity, suggestion}].''
     @ [CHR 0x0A]
     @ ''Document name: '' @ doc_name @ [CHR 0x0A, CHR 0x0A]
     @ ''Content:'' @ [CHR 0x0A] @ doc_text"

definition run_rag_review ::
  "(string \<Rightarrow> exn + string) \<Rightarrow> (string \<Rightarrow> exn + json) \<Rightarrow> string \<Rightarrow> string \<Rightarrow> exn + json" where
  "run_rag_review qa_run loads doc_name doc_text =
     (case qa_run (review_prompt doc_name doc_text) of
        Inl e \<Rightarrow> Inl e
      | Inr resp \<Rightarrow>
          (case extract_json_from_text loads resp of
             Inl e \<Rightarrow> Inl e
           | Inr parsed \<Rightarrow>
               if \<not> truthy parsed
               then Inr (JObj [(''document'', JStr doc_name), (''issues'', JArr [])])
               else Inr parsed))"

section \<open>Documents\<close>

text \<open>
  A \<^verbatim>\<open>python-docx\<close> document, as far as the program looks at it: the
  paragraphs of the body, each a list of runs with a text and a highlight
  colour, and the tables, each a list of rows of cells with their text. The
  bytes of a file are identified with the document they encode.
\<close>

datatype wd_color_index = YELLOW | OTHER_COLOR nat

record run =
  run_text :: string
  highlight_color :: "wd_color_index option"

type_synonym para = "run list"

record docx =
  paragraphs :: "para list"
  tables :: "string list list list"

text \<open>\<^verbatim>\<open>para.text\<close>\<close>

definition para_text :: "para \<Rightarrow> string" where
  "para_text p = concat (map run_text p)"

text \<open>
  The text of a new run goes through \<^verbatim>\<open>python-docx\<close> into the XML of the
  document. A control character other than tab, line feed and carriage
  return is no XML character, and setting the text raises a
  \<^verbatim>\<open>ValueError\<close>. A carriage return is stored as a line break, as a
  line feed is, and \<^verbatim>\<open>para.text\<close> reads a line break as a line feed.
\<close>

definition xml_compatible :: "string \<Rightarrow> bool" where
  "xml_compatible t =
     list_all (\<lambda>c. 32 \<le> (of_char c :: nat) \<or> c = CHR 0x09 \<or> c = CHR 0x0A \<or> c = CHR 0x0D) t"

definition docx_text :: "string \<Rightarrow> string" where
  "docx_text t = map (\<lambda>c. if c = CHR 0x0D then CHR 0x0A else c) t"

text \<open>\<^verbatim>\<open>run = para.add_run(t)\<close> followed by \<^verbatim>\<open>run.font.highlight_color = c\<close>\<close>

definition add_run_highlighted :: "para \<Rightarrow> string \<Rightarrow> wd_color_index \<Rightarrow> exn + para" where
  "add_run_highlighted p t c =
     (if xml_compatible t
      then Inr (p @ [\<lparr>run_text = docx_text t, highlight_color = Some c\<rparr>])
      else Inl ValueError)"

text \<open>
  \<^verbatim>\<open>doc.add_paragraph(t)\<close>: the new paragraph gets a run, by
  \<^verbatim>\<open>add_run\<close>, only when \<open>t\<close> is not empty.
\<close>

definition new_paragraph :: "string \<Rightarrow> exn + para" where
  "new_paragraph t =
     (if t \<noteq> [] then
        (if xml_compatible t
         then Inr [\<lparr>run_text = docx_text t, highlight_color = None\<rparr>]
         else Inl ValueError)
      else Inr [])"

text \<open>\<^verbatim>\<open>p.runs[0].font.highlight_color = c\<close>\<close>

definition highlight_first_run :: "para \<Rightarrow> wd_color_index \<Rightarrow> exn + para" where
  "highlight_first_run p c =
     (case p of [] \<Rightarrow> Inl IndexError | r # rs \<Rightarrow> Inr (r\<lparr>highlight_color := Some c\<rparr> # rs))"

section \<open>extract_text_from_docx_bytes\<close>

definition extract_text_from_docx_bytes :: "docx \<Rightarrow> string" where
  "extract_text_from_docx_bytes doc =
     (let parts = map strip (filter (\<lambda>t. strip t \<noteq> []) (map para_text (paragraphs doc)));
          cells = map strip (filter (\<lambda>t. strip t \<noteq> []) (concat (concat (tables doc))))
      in join [CHR 0x0A] (parts @ cells))"

section \<open>annotate_docx_inline\<close>

text \<open>
  An f-string formats a str as it is, \<^verbatim>\<open>None\<close> and the bools by their
  names; how Python prints a number, a list or a dict is the parameter
  \<open>str_of\<close>.
\<close>

fun py_format :: "(json \<Rightarrow> string) \<Rightarrow> json \<Rightarrow> string" where
  "py_format str_of (JStr s) = s"
| "py_format str_of JNull = ''None''"
| "py_format str_of (JBool b) = (if b then ''True'' else ''False'')"
| "py_format str_of v = str_of v"

text \<open>\<^verbatim>\<open>section = (issue.get("section") or "").lower()\<close>\<close>

definition issue_section :: "json \<Rightarrow> exn + string" where
  "issue_section issue =
     (case py_get issue ''section'' JNull of
        Inl e \<Rightarrow> Inl e
      | Inr v \<Rightarrow> py_lower (if truthy v then v else JStr []))"

text \<open>\<^verbatim>\<open>snippet = section or issue.get("issue", "")[:50].lower()\<close>\<close>

definition issue_snippet :: "json \<Rightarrow> exn + string" where
  "issue_snippet issue =
     (case issue_section issue of
        Inl e \<Rightarrow> Inl e
      | Inr section \<Rightarrow>
          if section \<noteq> [] then Inr section
          else (case py_get issue ''issue'' (JStr []) of
                  Inl e \<Rightarrow> Inl e
                | Inr v \<Rightarrow> (case py_slice50 v of Inl e \<Rightarrow> Inl e | Inr w \<Rightarrow> py_lower w)))"

text \<open>\<^verbatim>\<open>comment = f"[Suggestion: {issue.get('suggestion', '')}]"\<close>\<close>

definition issue_comment :: "(json \<Rightarrow> string) \<Rightarrow> json \<Rightarrow> exn + string" where
  "issue_comment str_of issue =
     (case py_get issue ''suggestion'' (JStr []) of
        Inl e \<Rightarrow> Inl e
      | Inr v \<Rightarrow> Inr (''[Suggestion: '' @ py_format str_of v @ '']''))"

text \<open>
  The inner loop over \<^verbatim>\<open>doc.paragraphs\<close>: the paragraphs after the run is
  added to the first one that matches, or \<open>None\<close> when the loop ends with
  \<^verbatim>\<open>found\<close> still false, or the exception of \<^verbatim>\<open>add_run\<close>.
\<close>

fun scan_paragraphs :: "string \<Rightarrow> string \<Rightarrow> para list \<Rightarrow> exn + para list option" where
  "scan_paragraphs snippet comment [] = Inr None"
| "scan_paragraphs snippet comment (para # paras) =
     (if snippet \<noteq> [] \<and> sublist snippet (lower (para_text para))
      then (case add_run_highlighted para ('' '' @ comment) YELLOW of
              Inl e \<Rightarrow> Inl e
            | Inr para' \<Rightarrow> Inr (Some (para' # paras)))
      else (case scan_paragraphs snippet comment paras of
              Inl e \<Rightarrow> Inl e
            | Inr None \<Rightarrow> Inr None
            | Inr (Some paras') \<Rightarrow> Inr (Some (para # paras'))))"

text \<open>The body of the loop over the issues.\<close>

definition annotate_issue :: "(json \<Rightarrow> string) \<Rightarrow> para list \<Rightarrow> json \<Rightarrow> exn + para list" where
  "annotate_issue str_of paras issue =
     (case issue_snippet issue of
        Inl e \<Rightarrow> Inl e
      | Inr snippet \<Rightarrow>
          (case issue_comment str_of issue of
             Inl e \<Rightarrow> Inl e
           | Inr comment \<Rightarrow>
               (case scan_paragraphs snippet comment paras of
                  Inl e \<Rightarrow> Inl e
                | Inr (Some paras') \<Rightarrow> Inr paras'
                | Inr None \<Rightarrow>
                    (case new_paragraph comment of
                       Inl e \<Rightarrow> Inl e
                     | Inr p0 \<Rightarrow>
                         (case highlight_first_run p0 YELLOW of
                            Inl e \<Rightarrow> Inl e
                          | Inr p \<Rightarrow> Inr (paras @ [p]))))))"

fun annotate_loop :: "(json \<Rightarrow> string) \<Rightarrow> para list \<Rightarrow> json list \<Rightarrow> exn + para list" where
  "annotate_loop str_of paras [] = Inr paras"
| "annotate_loop str_of paras (issue # issues) =
     (case annotate_issue str_of paras issue of
        Inl e \<Rightarrow> Inl e
      | Inr paras' \<Rightarrow> annotate_loop str_of paras' issues)"

definition annotate_docx_inline :: "(json \<Rightarrow> string) \<Rightarrow> docx \<Rightarrow> json \<Rightarrow> exn + docx" where
  "annotate_docx_inline str_of file_bytes json_review =
     (case py_get json_review ''issues'' (JArr []) of
        Inl e \<Rightarrow> Inl e
      | Inr issues \<Rightarrow>
          (case py_iter issues of
             Inl e \<Rightarrow> Inl e
           | Inr xs \<Rightarrow>
               (case annotate_loop str_of (paragraphs file_bytes) xs of
                  Inl e \<Rightarrow> Inl e
                | Inr paras \<Rightarrow> Inr (file_bytes\<lparr>paragraphs := paras\<rparr>))))"

section \<open>The review of a batch\<close>

text \<open>
  The branch of the script that runs once reference PDFs and documents are
  uploaded. The index built from the PDFs is inside \<open>qa_run\<close>.
\<close>

record output_json =
  process :: string
  documents_uploaded :: nat
  required_documents :: nat
  missing_document :: "string option"
  issues_found :: "json list"

record results =
  results_json :: output_json
  results_reviewed_files :: "(string \<times> docx) list"

text \<open>One element of the list comprehension that tags the issues of a document.\<close>

definition tag_issue :: "string \<Rightarrow> json \<Rightarrow> exn + json" where
  "tag_issue doc_type i =
     (case py_get i ''section'' (JStr []) of Inl e \<Rightarrow> Inl e | Inr sec \<Rightarrow>
      case py_get i ''issue'' (JStr []) of Inl e \<Rightarrow> Inl e | Inr iss \<Rightarrow>
      case py_get i ''severity'' (JStr []) of Inl e \<Rightarrow> Inl e | Inr sev \<Rightarrow>
      case py_get i ''suggestion'' (JStr []) of Inl e \<Rightarrow> Inl e | Inr sug \<Rightarrow>
        Inr (JObj [(''document'', JStr doc_type), (''section'', sec), (''issue'', iss),
                   (''severity'', sev), (''suggestion'', sug)]))"

fun tag_issues :: "string \<Rightarrow> json list \<Rightarrow> exn + json list" where
  "tag_issues doc_type [] = Inr []"
| "tag_issues doc_type (i # rest) =
     (case tag_issue doc_type i of
        Inl e \<Rightarrow> Inl e
      | Inr t \<Rightarrow> (case tag_issues doc_type rest of Inl e \<Rightarrow> Inl e | Inr ts \<Rightarrow> Inr (t # ts)))"

text \<open>
  The loop over \<^verbatim>\<open>docx_files\<close>, a list of names with their bytes; its state is
  the three lists \<^verbatim>\<open>detected_types\<close>, \<^verbatim>\<open>all_issues\<close> and
  \<^verbatim>\<open>reviewed_files\<close>.
\<close>

fun review_loop ::
  "(string \<Rightarrow> exn + string) \<Rightarrow> (string \<Rightarrow> exn + json) \<Rightarrow> (json \<Rightarrow> string)
     \<Rightarrow> (string \<times> docx) list \<Rightarrow> string list \<times> json list \<times> (string \<times> docx) list
     \<Rightarrow> exn + string list \<times> json list \<times> (string \<times> docx) list" where
  "review_loop qa_run loads str_of [] st = Inr st"
| "review_loop qa_run loads str_of ((name, raw) # files) (detected_types, all_issues, reviewed_files) =
     (let text = extract_text_from_docx_bytes raw;
          doc_type = classify_document (Some text);
          detected_types' = detected_types @ [doc_type]
      in case run_rag_review qa_run loads doc_type text of Inl e \<Rightarrow> Inl e | Inr review_json \<Rightarrow>
         case py_get review_json ''issues'' (JArr []) of Inl e \<Rightarrow> Inl e | Inr issues \<Rightarrow>
         case py_iter issues of Inl e \<Rightarrow> Inl e | Inr xs \<Rightarrow>
         case tag_issues doc_type xs of Inl e \<Rightarrow> Inl e | Inr tagged \<Rightarrow>
         case annotate_docx_inline str_of raw review_json of Inl e \<Rightarrow> Inl e | Inr reviewed_bytes \<Rightarrow>
           review_loop qa_run loads str_of files
             (detected_types', all_issues @ tagged, reviewed_files @ [(name, reviewed_bytes)]))"

definition run_review ::
  "(string \<Rightarrow> exn + string) \<Rightarrow> (string \<Rightarrow> exn + json) \<Rightarrow> (json \<Rightarrow> string)
     \<Rightarrow> (string \<times> docx) list \<Rightarrow> exn + results" where
  "run_review qa_run loads str_of docx_files =
     (case map_of ADGM_CHECKLISTS ''Company Incorporation'' of
        None \<Rightarrow> Inl KeyError
      | Some required_docs \<Rightarrow>
          (case review_loop qa_run loads str_of docx_files ([], [], []) of
             Inl e \<Rightarrow> Inl e
           | Inr (detected_types, all_issues, reviewed_files) \<Rightarrow>
               Inr \<lparr>results_json = \<lparr>process = ''Company Incorporation'',
                              documents_uploaded = length docx_files,
                              required_documents = length required_docs,
                              missing_document = first_missing required_docs detected_types,
                              issues_found = all_issues\<rparr>,
                    results_reviewed_files = reviewed_files\<rparr>))"

section \<open>Notions of the specification and examples\<close>

text \<open>A mapping has a field when it is a dict with that key.\<close>

fun has_field :: "json \<Rightarrow> string \<Rightarrow> bool" where
  "has_field (JObj kvs) k = (k \<in> fst ` set kvs)"
| "has_field _ k = False"

text \<open>What \<open>run_rag_review\<close> puts in the place of an empty extraction.\<close>

definition synthesized_review :: "string \<Rightarrow> json" where
  "synthesized_review doc_name = JObj [(''document'', JStr doc_name), (''issues'', JArr [])]"

text \<open>
  A remark as it is appended to a paragraph, and the same run as the
  annotator builds it.
\<close>

definition is_remark :: "string \<Rightarrow> bool" where
  "is_remark s \<longleftrightarrow> (\<exists>suggestion. s = '' [Suggestion: '' @ suggestion @ '']'')"

definition remark_run :: "string \<Rightarrow> run" where
  "remark_run comment = \<lparr>run_text = comment, highlight_color = Some YELLOW\<rparr>"

text \<open>
  One list of paragraphs extends another by remarks when it keeps every
  paragraph of the other in its place, each with highlighted remarks added
  at its end or none, and may have more paragraphs after them.
\<close>

definition extends_by_remarks :: "para list \<Rightarrow> para list \<Rightarrow> bool" where
  "extends_by_remarks paras paras' \<longleftrightarrow>
     length paras \<le> length paras'
     \<and> (\<forall>i < length paras. \<exists>rs. paras' ! i = paras ! i @ rs
           \<and> (\<forall>r \<in> set rs. is_remark (run_text r) \<and> highlight_color r = Some YELLOW))"

text \<open>
  The issue of the report made from the fields of a reviewer's issue and the
  type of its document, each field with its default.
\<close>

definition field_or_empty :: "(string \<times> json) list \<Rightarrow> string \<Rightarrow> json" where
  "field_or_empty kvs k = (case map_of kvs k of None \<Rightarrow> JStr [] | Some v \<Rightarrow> v)"

definition tagged_issue :: "string \<Rightarrow> (string \<times> json) list \<Rightarrow> json" where
  "tagged_issue doc_type kvs =
     JObj [(''document'', JStr doc_type),
           (''section'', field_or_empty kvs ''section''),
           (''issue'', field_or_empty kvs ''issue''),
           (''severity'', field_or_empty kvs ''severity''),
           (''suggestion'', field_or_empty kvs ''suggestion'')]"

definition doc_type_of :: "docx \<Rightarrow> string" where
  "doc_type_of raw = classify_document (Some (extract_text_from_docx_bytes raw))"

text \<open>
  The issues the batch loop reads for a document: the review of the document
  under its classified type, its field \<open>issues\<close> with the default of an empty
  list, as the \<^verbatim>\<open>for\<close> of the comprehension goes through it.
\<close>

definition reviewer_issues ::
  "(string \<Rightarrow> exn + string) \<Rightarrow> (string \<Rightarrow> exn + json) \<Rightarrow> docx \<Rightarrow> exn + json list" where
  "reviewer_issues qa_run loads raw =
     (case run_rag_review qa_run loads (doc_type_of raw) (extract_text_from_docx_bytes raw) of
        Inl e \<Rightarrow> Inl e
      | Inr review_json \<Rightarrow>
          (case py_get review_json ''issues'' (JArr []) of
             Inl e \<Rightarrow> Inl e
           | Inr issues \<Rightarrow> py_iter issues))"

text \<open>
  For the examples: a reviewer that gives one answer to every prompt, and a
  printer for the values that are not strings, which no example prints.
\<close>

definition reviewer_answers :: "string \<Rightarrow> string \<Rightarrow> exn + string" where
  "reviewer_answers resp prompt = Inr resp"

definition sample_str_of :: "json \<Rightarrow> string" where
  "sample_str_of v = ''?''"

definition plain :: "string \<Rightarrow> para" where
  "plain t = [\<lparr>run_text = t, highlight_color = None\<rparr>]"

definition articles_doc :: docx where
  "articles_doc =
     \<lparr>paragraphs = [plain ''Articles of Association of X Ltd'', plain ''Section 1: Capital''],
      tables = []\<rparr>"

definition memorandum_doc :: docx where
  "memorandum_doc = \<lparr>paragraphs = [plain ''Memorandum''], tables = [[[''Objects'', ''  '']]]\<rparr>"

definition two_sections :: docx where
  "two_sections =
     \<lparr>paragraphs = [plain ''Section 1: Capital'', plain ''Section 2: Directors''], tables = []\<rparr>"

section \<open>The classifier\<close>

lemma any_key_in_iff: "any_key_in keys t \<longleftrightarrow> (\<exists>k \<in> set keys. sublist k t)"
  by (induction keys) auto

lemma classify_loop_first:
  "(\<exists>i < length tab.
      classify_loop tab t = fst (tab ! i)
      \<and> (\<exists>k \<in> set (snd (tab ! i)). sublist k t)
      \<and> (\<forall>j < i. \<forall>k \<in> set (snd (tab ! j)). \<not> sublist k t))
   \<or> (classify_loop tab t = ''Unknown Document Type''
      \<and> (\<forall>j < length tab. \<forall>k \<in> set (snd (tab ! j)). \<not> sublist k t))"
proof (induction tab)
  case Nil
  then show ?case by simp
next
  case (Cons e tab)
  obtain doc_type keys where e: "e = (doc_type, keys)" by (cases e)
  show ?case
  proof (cases "any_key_in keys t")
    case True
    then have "classify_loop (e # tab) t = fst ((e # tab) ! 0)"
      and "\<exists>k \<in> set (snd ((e # tab) ! 0)). sublist k t"
      by (simp_all add: e any_key_in_iff)
    then show ?thesis by (intro disjI1 exI[of _ 0]) simp
  next
    case False
    then have step: "classify_loop (e # tab) t = classify_loop tab t"
      and none: "\<forall>k \<in> set (snd e). \<not> sublist k t"
      by (simp_all add: e any_key_in_iff)
    from Cons.IH show ?thesis
    proof
      assume "\<exists>i < length tab. classify_loop tab t = fst (tab ! i)
        \<and> (\<exists>k \<in> set (snd (tab ! i)). sublist k t)
        \<and> (\<forall>j < i. \<forall>k \<in> set (snd (tab ! j)). \<not> sublist k t)"
      then obtain i where i: "i < length tab" "classify_loop tab t = fst (tab ! i)"
        "\<exists>k \<in> set (snd (tab ! i)). sublist k t"
        "\<forall>j < i. \<forall>k \<in> set (snd (tab ! j)). \<not> sublist k t" by blast
      have "\<forall>j < Suc i. \<forall>k \<in> set (snd ((e # tab) ! j)). \<not> sublist k t"
        using none i(4) by (auto simp: nth_Cons split: nat.splits)
      with i step show ?thesis
        by (intro disjI1 exI[of _ "Suc i"]) simp
    next
      assume u: "classify_loop tab t = ''Unknown Document Type''
        \<and> (\<forall>j < length tab. \<forall>k \<in> set (snd (tab ! j)). \<not> sublist k t)"
      then have "\<forall>j < length (e # tab). \<forall>k \<in> set (snd ((e # tab) ! j)). \<not> sublist k t"
        using none by (auto simp: nth_Cons split: nat.splits)
      with u step show ?thesis by simp
    qed
  qed
qed

text \<open>
  Claim C2. For every text, \<open>classify_document\<close> lower-cases the text and
  goes through the labels of the keyword table in the order of their
  declaration: either it returns the label at some position \<open>i\<close> of the
  table, a keyword of that label occurs in the lower-cased text and no
  keyword of a label declared before \<open>i\<close> does, so the first label that
  matches wins; or no keyword of any label occurs in the lower-cased text and
  it returns \<open>Unknown Document Type\<close>. The empty text is of the second kind.
\<close>

theorem classify_document_first_match:
  "((\<exists>i < length DOC_TYPE_KEYWORDS.
      classify_document (Some text) = fst (DOC_TYPE_KEYWORDS ! i)
      \<and> (\<exists>k \<in> set (snd (DOC_TYPE_KEYWORDS ! i)). sublist k (lower text))
      \<and> (\<forall>j < i. \<forall>k \<in> set (snd (DOC_TYPE_KEYWORDS ! j)). \<not> sublist k (lower text)))
   \<or> (classify_document (Some text) = ''Unknown Document Type''
      \<and> (\<forall>j < length DOC_TYPE_KEYWORDS.
            \<forall>k \<in> set (snd (DOC_TYPE_KEYWORDS ! j)). \<not> sublist k (lower text))))
   \<and> classify_document (Some []) = ''Unknown Document Type''"
proof -
  have "classify_document (Some text) = classify_loop DOC_TYPE_KEYWORDS (lower text)"
    by (simp add: classify_document_def lower_def)
  moreover have "classify_document (Some []) = ''Unknown Document Type''"
    by (simp add: classify_document_def lower_def DOC_TYPE_KEYWORDS_def)
  ultimately show ?thesis
    using classify_loop_first [of DOC_TYPE_KEYWORDS "lower text"] by simp
qed

text \<open>
  The text \<open>The MOA and the AOA\<close> holds keywords of the first two labels, and
  is given the first; \<open>no keywords here\<close> holds none.
\<close>

theorem classify_document_first_match_witness:
  "classify_document (Some ''The MOA and the AOA'') = ''Articles of Association''
   \<and> sublist ''aoa'' (lower ''The MOA and the AOA'')
   \<and> sublist ''moa'' (lower ''The MOA and the AOA'')
   \<and> classify_document (Some ''no keywords here'') = ''Unknown Document Type''"
proof -
  have a: "sublist ''aoa'' (lower ''The MOA and the AOA'')"
    and m: "sublist ''moa'' (lower ''The MOA and the AOA'')"
    by code_simp+
  have n: "sublist ''articles of association'' (lower ''no keywords here'') = False"
    "sublist ''memorandum of association'' (lower ''no keywords here'') = False"
    "sublist ''aoa'' (lower ''no keywords here'') = False"
    "sublist ''articles'' (lower ''no keywords here'') = False"
    "sublist ''moa'' (lower ''no keywords here'') = False"
    "sublist ''memorandum'' (lower ''no keywords here'') = False"
    "sublist ''incorporation application'' (lower ''no keywords here'') = False"
    "sublist ''ubo declaration'' (lower ''no keywords here'') = False"
    "sublist ''register of members'' (lower ''no keywords here'') = False"
    "sublist ''register of directors'' (lower ''no keywords here'') = False"
    by code_simp+
  have n': "\<forall>e \<in> set DOC_TYPE_KEYWORDS. \<forall>k \<in> set (snd e). \<not> sublist k (lower ''no keywords here'')"
    by (simp add: DOC_TYPE_KEYWORDS_def n)
  have first: "classify_document (Some ''The MOA and the AOA'') = ''Articles of Association''"
  proof -
    from classify_document_first_match [of "''The MOA and the AOA''"]
    consider (hit) i where "i < length DOC_TYPE_KEYWORDS"
        "classify_document (Some ''The MOA and the AOA'') = fst (DOC_TYPE_KEYWORDS ! i)"
        "\<forall>j < i. \<forall>k \<in> set (snd (DOC_TYPE_KEYWORDS ! j)). \<not> sublist k (lower ''The MOA and the AOA'')"
      | (miss) "\<forall>j < length DOC_TYPE_KEYWORDS.
          \<forall>k \<in> set (snd (DOC_TYPE_KEYWORDS ! j)). \<not> sublist k (lower ''The MOA and the AOA'')"
      by blast
    then show ?thesis
    proof cases
      case hit
      have "i = 0"
      proof (rule ccontr)
        assume "i \<noteq> 0"
        then have "0 < i" by simp
        with hit(3) have "\<forall>k \<in> set (snd (DOC_TYPE_KEYWORDS ! 0)). \<not> sublist k (lower ''The MOA and the AOA'')"
          by blast
        with a show False by (simp add: DOC_TYPE_KEYWORDS_def)
      qed
      with hit(2) show ?thesis by (simp add: DOC_TYPE_KEYWORDS_def)
    next
      case miss
      have "0 < length DOC_TYPE_KEYWORDS" by (simp add: DOC_TYPE_KEYWORDS_def)
      with miss have "\<forall>k \<in> set (snd (DOC_TYPE_KEYWORDS ! 0)). \<not> sublist k (lower ''The MOA and the AOA'')"
        by blast
      with a show ?thesis by (simp add: DOC_TYPE_KEYWORDS_def)
    qed
  qed
  have none: "classify_document (Some ''no keywords here'') = ''Unknown Document Type''"
  proof -
    have "\<not> (\<exists>i < length DOC_TYPE_KEYWORDS.
        \<exists>k \<in> set (snd (DOC_TYPE_KEYWORDS ! i)). sublist k (lower ''no keywords here''))"
      using n' nth_mem by blast
    with classify_document_first_match [of "''no keywords here''"] show ?thesis by blast
  qed
  from first none a m show ?thesis by simp
qed

text \<open>
  Claim C9. On \<^verbatim>\<open>None\<close>, \<open>classify_document\<close> returns a value, the
  label \<open>Unknown Document Type\<close>, which is also what it returns on the empty
  string.
\<close>

theorem classify_document_None:
  "classify_document None = ''Unknown Document Type''
   \<and> classify_document None = classify_document (Some [])"
  by (simp add: classify_document_def lower_def DOC_TYPE_KEYWORDS_def)

lemma classify_samples:
  "classify_document (Some ''aoa'') = ''Articles of Association''"
  "classify_document (Some ''moa'') = ''Memorandum of Association''"
  "classify_document (Some ''incorporation application'') = ''Incorporation Application Form''"
  "classify_document (Some ''ubo declaration'') = ''UBO Declaration Form''"
  "classify_document (Some ''register of members'') = ''Register of Members and Directors''"
  by code_simp+

text \<open>
  Claim C8. The checklist of \<open>Company Incorporation\<close> exists, each of its
  required labels is a key of the keyword table, and for each of them there
  is a text that \<open>classify_document\<close> gives that label: no required label is
  out of the classifier's reach.
\<close>

theorem required_labels_classifiable:
  "\<exists>required_docs. map_of ADGM_CHECKLISTS ''Company Incorporation'' = Some required_docs
      \<and> set required_docs \<subseteq> fst ` set DOC_TYPE_KEYWORDS
      \<and> (\<forall>d \<in> set required_docs. \<exists>text. classify_document (Some text) = d)"
proof -
  let ?req = "[''Articles of Association'', ''Memorandum of Association'',
    ''Incorporation Application Form'', ''UBO Declaration Form'',
    ''Register of Members and Directors'']"
  have a: "map_of ADGM_CHECKLISTS ''Company Incorporation'' = Some ?req"
    by (simp add: ADGM_CHECKLISTS_def)
  have b: "set ?req \<subseteq> fst ` set DOC_TYPE_KEYWORDS"
    by (simp add: DOC_TYPE_KEYWORDS_def)
  have c: "\<forall>d \<in> set ?req. \<exists>text. classify_document (Some text) = d"
    using classify_samples by (simp del: One_nat_def) blast
  from a b c show ?thesis by blast
qed

theorem required_labels_classifiable_witness:
  "''UBO Declaration Form'' \<in> fst ` set DOC_TYPE_KEYWORDS
   \<and> (\<exists>text. classify_document (Some text) = ''UBO Declaration Form'')"
proof -
  obtain required_docs
    where r: "map_of ADGM_CHECKLISTS ''Company Incorporation'' = Some required_docs"
      and s: "set required_docs \<subseteq> fst ` set DOC_TYPE_KEYWORDS"
      and c: "\<forall>d \<in> set required_docs. \<exists>text. classify_document (Some text) = d"
    using required_labels_classifiable by blast
  from r have "''UBO Declaration Form'' \<in> set required_docs"
    by (auto simp: ADGM_CHECKLISTS_def)
  with s c show ?thesis by blast
qed

section \<open>The checklist audit\<close>

lemma first_missing_None:
  "first_missing required detected = None \<longleftrightarrow> set required \<subseteq> set detected"
proof -
  have "first_missing required detected = None
          \<longleftrightarrow> filter (\<lambda>d. d \<notin> set detected) required = []"
    by (simp add: first_missing_def missing_def split: list.splits)
  also have "\<dots> \<longleftrightarrow> set required \<subseteq> set detected"
    by (auto simp: filter_empty_conv)
  finally show ?thesis .
qed

lemma filter_eq_Cons_first:
  "filter P xs = d # ds \<Longrightarrow> \<exists>i < length xs. xs ! i = d \<and> P d \<and> (\<forall>j < i. \<not> P (xs ! j))"
proof (induction xs)
  case Nil
  then show ?case by simp
next
  case (Cons x xs)
  show ?case
  proof (cases "P x")
    case True
    with Cons.prems have "x = d" by simp
    with True show ?thesis by (intro exI[of _ 0]) simp
  next
    case False
    with Cons obtain i where "i < length xs" "xs ! i = d" "P d" "\<forall>j < i. \<not> P (xs ! j)"
      by auto
    with False show ?thesis
      by (intro exI[of _ "Suc i"]) (auto simp: nth_Cons split: nat.splits)
  qed
qed

lemma first_missing_Some:
  assumes "first_missing required detected = Some d"
  shows "\<exists>i < length required. required ! i = d \<and> d \<notin> set detected
           \<and> (\<forall>j < i. required ! j \<in> set detected)"
proof -
  from assms obtain ds where "filter (\<lambda>d. d \<notin> set detected) required = d # ds"
    by (auto simp: first_missing_def missing_def split: list.splits)
  from filter_eq_Cons_first [OF this] show ?thesis by simp
qed

lemma first_missing_perm:
  assumes "mset detected' = mset detected"
  shows "first_missing required detected' = first_missing required detected"
proof -
  from assms have "set detected' = set detected" by (rule mset_eq_setD)
  then show ?thesis by (simp add: first_missing_def missing_def)
qed

text \<open>
  Claim C4. For every list of required labels and every sequence of detected
  labels, with or without duplicates: the audit returns null exactly when
  every required label occurs among the detected ones; when it returns a
  label, that label stands at some position \<open>i\<close> of the required list, does
  not occur among the detected labels, and every required label before
  position \<open>i\<close> does; and the result is the same for every reordering of the
  detected sequence.
\<close>

theorem first_missing_first_absent:
  "(first_missing required detected = None \<longleftrightarrow> set required \<subseteq> set detected)
   \<and> (\<forall>d. first_missing required detected = Some d \<longrightarrow>
         (\<exists>i < length required. required ! i = d \<and> d \<notin> set detected
            \<and> (\<forall>j < i. required ! j \<in> set detected)))
   \<and> (\<forall>detected'. mset detected' = mset detected \<longrightarrow>
         first_missing required detected' = first_missing required detected)"
  using first_missing_None first_missing_Some first_missing_perm by blast

text \<open>
  The required labels A to E with B not detected: B is reported, also when
  the detected labels come in another order. With all five detected, in any
  order and one of them twice, nothing is reported.
\<close>

theorem first_missing_first_absent_witness:
  "first_missing [''A'', ''B'', ''C'', ''D'', ''E''] [''A'', ''C'', ''D'', ''E''] = Some ''B''
   \<and> mset [''E'', ''D'', ''C'', ''A''] = mset [''A'', ''C'', ''D'', ''E'']
   \<and> first_missing [''A'', ''B'', ''C'', ''D'', ''E''] [''E'', ''D'', ''C'', ''A''] = Some ''B''
   \<and> ''B'' \<notin> set [''A'', ''C'', ''D'', ''E'']
   \<and> first_missing [''A'', ''B'', ''C'', ''D'', ''E''] [''E'', ''D'', ''C'', ''B'', ''A'', ''A''] = None"
proof -
  let ?req = "[''A'', ''B'', ''C'', ''D'', ''E'']"
  let ?det = "[''A'', ''C'', ''D'', ''E'']"
  let ?det' = "[''E'', ''D'', ''C'', ''A'']"
  have v: "first_missing ?req ?det = Some ''B''"
    by (simp add: first_missing_def missing_def)
  have p: "mset ?det' = mset ?det"
    by (simp add: add_mset_commute)
  have "first_missing ?req ?det' = first_missing ?req ?det"
    using first_missing_first_absent [of ?req ?det] p by blast
  moreover have "''B'' \<notin> set ?det"
    using first_missing_first_absent [of ?req ?det] v by blast
  moreover have "first_missing ?req [''E'', ''D'', ''C'', ''B'', ''A'', ''A''] = None"
  proof -
    have "set ?req \<subseteq> set [''E'', ''D'', ''C'', ''B'', ''A'', ''A'']" by simp
    with first_missing_first_absent [of ?req "[''E'', ''D'', ''C'', ''B'', ''A'', ''A'']"]
    show ?thesis by blast
  qed
  ultimately show ?thesis using v p by simp
qed

section \<open>The JSON extraction\<close>

lemma slice_Suc:
  assumes "start \<le> i" "i < length tx"
  shows "slice tx start (Suc i) = slice tx start i @ [tx ! i]"
proof -
  have "Suc i - start = Suc (i - start)" using assms by simp
  moreover have "i - start < length (drop start tx)" using assms by simp
  ultimately show ?thesis
    using assms by (simp add: slice_def take_Suc_conv_app_nth)
qed

lemma brace_depth_snoc:
  "brace_depth (s @ [c]) =
     brace_depth s + (if c = CHR ''{'' then 1 else if c = CHR ''}'' then - 1 else 0)"
  by (simp add: brace_depth_def)

lemma brace_depth_slice_Suc:
  assumes "start \<le> i" "i < length tx"
  shows "brace_depth (slice tx start (Suc i)) =
     brace_depth (slice tx start i)
       + (if tx ! i = CHR ''{'' then 1 else if tx ! i = CHR ''}'' then - 1 else 0)"
  using assms by (simp only: slice_Suc brace_depth_snoc)

lemma scan_braces_hit:
  assumes "start \<le> i" "i < e" "e \<le> length tx"
    and "depth = brace_depth (slice tx start i)"
    and "0 \<le> depth" "depth = 0 \<longrightarrow> tx ! i = CHR ''{''"
    and "brace_depth (slice tx start e) = 0"
    and "\<forall>m. i < m \<and> m < e \<longrightarrow> brace_depth (slice tx start m) \<noteq> 0"
  shows "scan_braces loads tx start i depth =
     (case loads (slice tx start e) of Inl x \<Rightarrow> Inr (JObj []) | Inr v \<Rightarrow> Inr v)"
  using assms
proof (induction loads tx start i depth rule: scan_braces.induct)
  case (1 loads tx start i depth)
  from "1.prems" have il: "i < length tx" by simp
  then have at: "str_at tx i = Inr (tx ! i)" by (simp add: str_at_def)
  have next_depth: "brace_depth (slice tx start (Suc i)) =
      depth + (if tx ! i = CHR ''{'' then 1 else if tx ! i = CHR ''}'' then - 1 else 0)"
    using brace_depth_slice_Suc [OF "1.prems"(1) il] "1.prems"(4) by simp
  show ?case
  proof (cases "Suc i = e")
    case True
    with next_depth "1.prems"(5,6,7) have c: "tx ! i = CHR ''}''" "depth - 1 = 0"
      by (auto split: if_splits)
    with il at True show ?thesis
      by (subst scan_braces.simps) simp
  next
    case False
    with "1.prems" have lt: "Suc i < e" by simp
    with "1.prems"(8) have nz: "brace_depth (slice tx start (Suc i)) \<noteq> 0" by simp
    have rest: "\<forall>m. Suc i < m \<and> m < e \<longrightarrow> brace_depth (slice tx start m) \<noteq> 0"
      using "1.prems"(8) by simp
    have s: "start \<le> Suc i" using "1.prems"(1) by simp
    consider (lbrace) "tx ! i = CHR ''{''"
      | (rbrace) "tx ! i = CHR ''}''"
      | (other) "tx ! i \<noteq> CHR ''{''" "tx ! i \<noteq> CHR ''}''"
      by blast
    then show ?thesis
    proof cases
      case lbrace
      have "scan_braces loads tx start (i + 1) (depth + 1) =
          (case loads (slice tx start e) of Inl x \<Rightarrow> Inr (JObj []) | Inr v \<Rightarrow> Inr v)"
        using "1.IH"(1) [OF il at lbrace] s lt "1.prems"(3,5,7) next_depth lbrace rest
        by simp
      with il at lbrace show ?thesis by (subst scan_braces.simps) simp
    next
      case rbrace
      from next_depth rbrace nz "1.prems"(5,6) have d: "depth - 1 \<noteq> 0" "0 \<le> depth - 1"
        by auto
      have c': "tx ! i \<noteq> CHR ''{''" using rbrace by simp
      have "scan_braces loads tx start (i + 1) (depth - 1) =
          (case loads (slice tx start e) of Inl x \<Rightarrow> Inr (JObj []) | Inr v \<Rightarrow> Inr v)"
        using "1.IH"(2) [OF il at c' rbrace d(1)] s lt "1.prems"(3,7) next_depth rbrace d rest
        by simp
      with il at rbrace d show ?thesis by (subst scan_braces.simps) simp
    next
      case other
      from "1.prems"(6) other have dpos: "depth \<noteq> 0" by blast
      have "scan_braces loads tx start (i + 1) depth =
          (case loads (slice tx start e) of Inl x \<Rightarrow> Inr (JObj []) | Inr v \<Rightarrow> Inr v)"
        using "1.IH"(3) [OF il at other] s lt "1.prems"(3,5,7) next_depth other dpos rest
        by simp
      with il at other show ?thesis by (subst scan_braces.simps) simp
    qed
  qed
qed

lemma scan_braces_miss:
  assumes "start \<le> i"
    and "depth = brace_depth (slice tx start i)"
    and "0 \<le> depth" "depth = 0 \<longrightarrow> i < length tx \<longrightarrow> tx ! i = CHR ''{''"
    and "\<forall>m. i < m \<and> m \<le> length tx \<longrightarrow> brace_depth (slice tx start m) \<noteq> 0"
  shows "scan_braces loads tx start i depth = Inr (JObj [])"
  using assms
proof (induction loads tx start i depth rule: scan_braces.induct)
  case (1 loads tx start i depth)
  show ?case
  proof (cases "i < length tx")
    case False
    then show ?thesis by (subst scan_braces.simps) simp
  next
    case il: True
    then have at: "str_at tx i = Inr (tx ! i)" by (simp add: str_at_def)
    have next_depth: "brace_depth (slice tx start (Suc i)) =
        depth + (if tx ! i = CHR ''{'' then 1 else if tx ! i = CHR ''}'' then - 1 else 0)"
      using brace_depth_slice_Suc [OF "1.prems"(1) il] "1.prems"(2) by simp
    from il "1.prems"(5) have nz: "brace_depth (slice tx start (Suc i)) \<noteq> 0" by simp
    have rest: "\<forall>m. Suc i < m \<and> m \<le> length tx \<longrightarrow> brace_depth (slice tx start m) \<noteq> 0"
      using "1.prems"(5) by simp
    have s: "start \<le> Suc i" using "1.prems"(1) by simp
    consider (lbrace) "tx ! i = CHR ''{''"
      | (rbrace) "tx ! i = CHR ''}''"
      | (other) "tx ! i \<noteq> CHR ''{''" "tx ! i \<noteq> CHR ''}''"
      by blast
    then show ?thesis
    proof cases
      case lbrace
      have "scan_braces loads tx start (i + 1) (depth + 1) = Inr (JObj [])"
        using "1.IH"(1) [OF il at lbrace] s "1.prems"(3) next_depth lbrace rest by simp
      with il at lbrace show ?thesis by (subst scan_braces.simps) simp
    next
      case rbrace
      from next_depth rbrace nz "1.prems"(3,4) il have d: "depth - 1 \<noteq> 0" "0 \<le> depth - 1"
        by auto
      have c': "tx ! i \<noteq> CHR ''{''" using rbrace by simp
      have "scan_braces loads tx start (i + 1) (depth - 1) = Inr (JObj [])"
        using "1.IH"(2) [OF il at c' rbrace d(1)] s next_depth rbrace d rest by simp
      with il at rbrace d show ?thesis by (subst scan_braces.simps) simp
    next
      case other
      from "1.prems"(4) il other have dpos: "depth \<noteq> 0" by blast
      have "scan_braces loads tx start (i + 1) depth = Inr (JObj [])"
        using "1.IH"(3) [OF il at other] s "1.prems"(3) next_depth other dpos rest by simp
      with il at other show ?thesis by (subst scan_braces.simps) simp
    qed
  qed
qed


lemma str_find_absent: "c \<notin> set tx \<Longrightarrow> str_find tx c = - 1"
  by (simp add: str_find_def)

lemma str_find_present:
  assumes "c \<in> set tx"
  shows "str_find tx c = int (length (takeWhile (\<lambda>x. x \<noteq> c) tx))"
    and "length (takeWhile (\<lambda>x. x \<noteq> c) tx) < length tx"
    and "tx ! length (takeWhile (\<lambda>x. x \<noteq> c) tx) = c"
proof -
  show "str_find tx c = int (length (takeWhile (\<lambda>x. x \<noteq> c) tx))"
    using assms by (simp add: str_find_def)
  show lt: "length (takeWhile (\<lambda>x. x \<noteq> c) tx) < length tx"
  proof (rule ccontr)
    assume "\<not> ?thesis"
    with length_takeWhile_le [of "\<lambda>x. x \<noteq> c" tx]
    have "length (takeWhile (\<lambda>x. x \<noteq> c) tx) = length tx" by simp
    then have "takeWhile (\<lambda>x. x \<noteq> c) tx = tx"
      by (metis takeWhile_eq_take take_all order_refl)
    then have "\<forall>x \<in> set tx. x \<noteq> c" by (simp only: takeWhile_eq_all_conv)
    with assms show False by blast
  qed
  from nth_length_takeWhile [OF lt] show "tx ! length (takeWhile (\<lambda>x. x \<noteq> c) tx) = c"
    by simp
qed

lemma brace_depth_positive_prefix:
  assumes "sp \<noteq> []" "hd sp = CHR ''{''"
    and "\<forall>k. 0 < k \<and> k < length sp \<longrightarrow> brace_depth (take k sp) \<noteq> 0"
  shows "0 < n \<Longrightarrow> n < length sp \<Longrightarrow> 0 < brace_depth (take n sp)"
proof (induction n)
  case 0
  then show ?case by simp
next
  case (Suc n)
  show ?case
  proof (cases "n = 0")
    case True
    from assms(1,2) have "take (Suc 0) sp = [CHR ''{'']" by (cases sp) simp_all
    with True show ?thesis by (simp add: brace_depth_def)
  next
    case False
    with Suc have ih: "0 < brace_depth (take n sp)" by simp
    from Suc.prems have "take (Suc n) sp = take n sp @ [sp ! n]"
      by (simp add: take_Suc_conv_app_nth)
    then have "brace_depth (take n sp) - 1 \<le> brace_depth (take (Suc n) sp)"
      by (simp add: brace_depth_snoc)
    moreover from assms(3) Suc.prems have "brace_depth (take (Suc n) sp) \<noteq> 0" by simp
    ultimately show ?thesis using ih by linarith
  qed
qed

lemma extract_json_hit:
  assumes "first_balanced_span tx sp"
  shows "extract_json_from_text loads tx =
     (case loads sp of Inl x \<Rightarrow> Inr (JObj []) | Inr v \<Rightarrow> Inr v)"
proof -
  from assms obtain pre post where tx: "tx = pre @ sp @ post"
    and pre: "CHR ''{'' \<notin> set pre" and ne: "sp \<noteq> []" and hd: "hd sp = CHR ''{''"
    and bal: "brace_depth sp = 0"
    and pos: "\<forall>n. 0 < n \<and> n < length sp \<longrightarrow> 0 < brace_depth (take n sp)"
    unfolding first_balanced_span_def by blast
  from ne hd obtain rest where sp: "sp = CHR ''{'' # rest" by (cases sp) auto
  have "\<forall>x \<in> set pre. x \<noteq> CHR ''{''" using pre by blast
  then have tw: "takeWhile (\<lambda>x. x \<noteq> CHR ''{'') tx = pre"
    by (simp add: tx sp)
  have mem: "CHR ''{'' \<in> set tx" by (simp add: tx sp)
  define start where "start = length pre"
  have find: "str_find tx (CHR ''{'') = int start"
    using str_find_present(1) [OF mem] tw by (simp add: start_def)
  have sl: "slice tx start (start + n) = take n sp" if "n \<le> length sp" for n
    using that by (simp add: slice_def tx start_def)
  have at: "tx ! start = CHR ''{''"
    by (simp add: tx start_def sp)
  have "scan_braces loads tx start start 0 =
      (case loads (slice tx start (start + length sp)) of
         Inl x \<Rightarrow> Inr (JObj []) | Inr v \<Rightarrow> Inr v)"
  proof (rule scan_braces_hit)
    show "start \<le> start" by simp
    show "start < start + length sp" using ne by simp
    show "start + length sp \<le> length tx" by (simp add: tx start_def)
    show "0 = brace_depth (slice tx start start)" by (simp add: slice_def brace_depth_def)
    show "(0::int) \<le> 0" by simp
    show "(0::int) = 0 \<longrightarrow> tx ! start = CHR ''{''" using at by simp
    show "brace_depth (slice tx start (start + length sp)) = 0"
      using sl [of "length sp"] bal by simp
    show "\<forall>m. start < m \<and> m < start + length sp \<longrightarrow> brace_depth (slice tx start m) \<noteq> 0"
    proof (intro allI impI)
      fix m assume m: "start < m \<and> m < start + length sp"
      then have "m - start \<le> length sp" by linarith
      then have "slice tx start (start + (m - start)) = take (m - start) sp"
        by (rule sl)
      moreover from m have "0 < m - start \<and> m - start < length sp" by linarith
      with pos have "0 < brace_depth (take (m - start) sp)" by blast
      ultimately show "brace_depth (slice tx start m) \<noteq> 0" using m by simp
    qed
  qed
  with sl [of "length sp"] find show ?thesis
    by (simp add: extract_json_from_text_def)
qed

lemma extract_json_miss:
  assumes "\<not> (\<exists>sp. first_balanced_span tx sp)"
  shows "extract_json_from_text loads tx = Inr (JObj [])"
proof (cases "CHR ''{'' \<in> set tx")
  case False
  then show ?thesis by (simp add: extract_json_from_text_def str_find_absent)
next
  case True
  define start where "start = length (takeWhile (\<lambda>x. x \<noteq> CHR ''{'') tx)"
  from str_find_present [OF True]
  have find: "str_find tx (CHR ''{'') = int start" and lt: "start < length tx"
    and at: "tx ! start = CHR ''{''"
    by (simp_all add: start_def)
  have never: "\<forall>m. start < m \<and> m \<le> length tx \<longrightarrow> brace_depth (slice tx start m) \<noteq> 0"
  proof (rule ccontr)
    assume "\<not> ?thesis"
    then have ex: "\<exists>m. start < m \<and> m \<le> length tx \<and> brace_depth (slice tx start m) = 0"
      by blast
    define e where "e = (LEAST m. start < m \<and> m \<le> length tx \<and> brace_depth (slice tx start m) = 0)"
    from ex have e: "start < e" "e \<le> length tx" "brace_depth (slice tx start e) = 0"
      unfolding e_def by (metis (mono_tags, lifting) LeastI_ex)+
    have least: "\<not> (start < m \<and> m \<le> length tx \<and> brace_depth (slice tx start m) = 0)"
      if "m < e" for m
      using that not_less_Least unfolding e_def by blast
    let ?sp = "slice tx start e"
    have len: "length ?sp = e - start" using e by (simp add: slice_def)
    have ne: "?sp \<noteq> []" using len e by auto
    have hd: "hd ?sp = CHR ''{''"
      using e lt at by (simp add: slice_def hd_drop_conv_nth)
    have tk: "take n ?sp = slice tx start (start + n)" if "n < e - start" for n
      using that by (simp add: slice_def min_def)
    have nz: "\<forall>k. 0 < k \<and> k < length ?sp \<longrightarrow> brace_depth (take k ?sp) \<noteq> 0"
    proof (intro allI impI)
      fix k assume k: "0 < k \<and> k < length ?sp"
      with len have ke: "start + k < e" by linarith
      with e have "start < start + k" "start + k \<le> length tx" using k by linarith+
      with least [OF ke] have "brace_depth (slice tx start (start + k)) \<noteq> 0" by blast
      with tk k len show "brace_depth (take k ?sp) \<noteq> 0" by simp
    qed
    have pos: "\<forall>n. 0 < n \<and> n < length ?sp \<longrightarrow> 0 < brace_depth (take n ?sp)"
      using brace_depth_positive_prefix [OF ne hd nz] by blast
    have split: "tx = take start tx @ ?sp @ drop e tx"
    proof -
      have "drop start tx = take (e - start) (drop start tx) @ drop (e - start) (drop start tx)"
        by (simp only: append_take_drop_id)
      moreover have "drop (e - start) (drop start tx) = drop e tx" using e by simp
      ultimately have "drop start tx = ?sp @ drop e tx" by (simp only: slice_def)
      then show ?thesis by (metis append_take_drop_id)
    qed
    have "CHR ''{'' \<notin> set (take start tx)"
    proof -
      have "take start tx = takeWhile (\<lambda>x. x \<noteq> CHR ''{'') tx"
        unfolding start_def by (rule takeWhile_eq_take [symmetric])
      then show ?thesis by (auto dest: set_takeWhileD)
    qed
    with split ne hd e(3) pos have "first_balanced_span tx ?sp"
      unfolding first_balanced_span_def by blast
    with assms show False by blast
  qed
  have "scan_braces loads tx start start 0 = Inr (JObj [])"
  proof (rule scan_braces_miss)
    show "start \<le> start" by simp
    show "0 = brace_depth (slice tx start start)" by (simp add: slice_def brace_depth_def)
    show "(0::int) \<le> 0" by simp
    show "(0::int) = 0 \<longrightarrow> start < length tx \<longrightarrow> tx ! start = CHR ''{''" using at by simp
    show "\<forall>m. start < m \<and> m \<le> length tx \<longrightarrow> brace_depth (slice tx start m) \<noteq> 0"
      by (rule never)
  qed
  with find show ?thesis by (simp add: extract_json_from_text_def)
qed

lemma flat_span_is_first_balanced:
  assumes "CHR ''{'' \<notin> set pre" "CHR ''{'' \<notin> set mid" "CHR ''}'' \<notin> set mid"
  shows "first_balanced_span (pre @ CHR ''{'' # mid @ CHR ''}'' # post) (CHR ''{'' # mid @ [CHR ''}''])"
proof -
  let ?sp = "CHR ''{'' # mid @ [CHR ''}'']"
  have bal: "brace_depth ?sp = 0"
    using assms(2,3) by (simp add: brace_depth_def)
  have pos: "\<forall>n. 0 < n \<and> n < length ?sp \<longrightarrow> 0 < brace_depth (take n ?sp)"
  proof (intro allI impI)
    fix n assume n: "0 < n \<and> n < length ?sp"
    then obtain k where k: "n = Suc k" "k \<le> length mid" by (cases n) auto
    then have "take n ?sp = CHR ''{'' # take k mid" by simp
    moreover have "CHR ''{'' \<notin> set (take k mid)" "CHR ''}'' \<notin> set (take k mid)"
      using assms(2,3) by (auto dest: in_set_takeD)
    ultimately show "0 < brace_depth (take n ?sp)"
      by (simp add: brace_depth_def)
  qed
  have "pre @ CHR ''{'' # mid @ CHR ''}'' # post = pre @ ?sp @ post" by simp
  with assms(1) bal pos show ?thesis
    unfolding first_balanced_span_def by (intro exI[of _ pre] exI[of _ post]) simp
qed

lemma no_closing_brace_no_span:
  assumes "CHR ''}'' \<notin> set tx"
  shows "\<not> first_balanced_span tx sp"
proof
  assume "first_balanced_span tx sp"
  then obtain pre post where tx: "tx = pre @ sp @ post" and ne: "sp \<noteq> []"
    and hd: "hd sp = CHR ''{''" and bal: "brace_depth sp = 0"
    unfolding first_balanced_span_def by blast
  from assms tx have "CHR ''}'' \<notin> set sp" by simp
  then have "count_list sp (CHR ''}'') = 0" by simp
  moreover from ne hd have "0 < count_list sp (CHR ''{'')" by (cases sp) auto
  ultimately show False using bal by (simp add: brace_depth_def)
qed

text \<open>
  Claim C3. For every text and every behaviour of \<^verbatim>\<open>json.loads\<close>,
  \<open>_extract_json_from_text\<close> returns a value and never an exception. When
  the text has no opening brace it returns the empty dict. When the text has
  a first balanced span, found by counting every literal brace whether or not
  it stands inside a quoted string, it hands exactly that span to
  \<^verbatim>\<open>json.loads\<close> and returns what that returns, or the empty dict when
  that raises. When the text has no balanced span it returns the empty dict.
\<close>

theorem extract_json_first_balanced_span:
  "(\<exists>v. extract_json_from_text loads tx = Inr v)
   \<and> (CHR ''{'' \<notin> set tx \<longrightarrow> extract_json_from_text loads tx = Inr (JObj []))
   \<and> (\<forall>sp. first_balanced_span tx sp \<longrightarrow>
         extract_json_from_text loads tx =
           (case loads sp of Inl e \<Rightarrow> Inr (JObj []) | Inr v \<Rightarrow> Inr v))
   \<and> ((\<nexists>sp. first_balanced_span tx sp) \<longrightarrow> extract_json_from_text loads tx = Inr (JObj []))"
proof -
  have hit: "\<forall>sp. first_balanced_span tx sp \<longrightarrow>
      extract_json_from_text loads tx =
        (case loads sp of Inl e \<Rightarrow> Inr (JObj []) | Inr v \<Rightarrow> Inr v)"
    using extract_json_hit by blast
  have miss: "(\<nexists>sp. first_balanced_span tx sp) \<longrightarrow> extract_json_from_text loads tx = Inr (JObj [])"
    using extract_json_miss by blast
  have none: "CHR ''{'' \<notin> set tx \<longrightarrow> extract_json_from_text loads tx = Inr (JObj [])"
    by (simp add: extract_json_from_text_def str_find_absent)
  have total: "\<exists>v. extract_json_from_text loads tx = Inr v"
  proof (cases "\<exists>sp. first_balanced_span tx sp")
    case True
    then obtain sp where "first_balanced_span tx sp" by blast
    with hit have "extract_json_from_text loads tx =
        (case loads sp of Inl e \<Rightarrow> Inr (JObj []) | Inr v \<Rightarrow> Inr v)" by blast
    then show ?thesis by (cases "loads sp") simp_all
  next
    case False
    with miss show ?thesis by blast
  qed
  from total none hit miss show ?thesis by blast
qed

text \<open>
  The three examples of the specification, and a response whose string value
  holds a closing brace: the span ends at that brace, is not JSON, and the
  result is the empty dict.
\<close>

theorem extract_json_first_balanced_span_witness:
  \<open>extract_json_from_text json_loads ''blah blah {"document":"X","issues":[]} trailing''
     = Inr (JObj [(''document'', JStr ''X''), (''issues'', JArr [])])
   \<and> extract_json_from_text json_loads ''no braces here'' = Inr (JObj [])
   \<and> extract_json_from_text json_loads ''{ unbalanced'' = Inr (JObj [])
   \<and> first_balanced_span ''x {"a": "}"} y'' ''{"a": "}''
   \<and> extract_json_from_text json_loads ''x {"a": "}"} y'' = Inr (JObj [])\<close>
proof -
  have s1: \<open>first_balanced_span ''blah blah {"document":"X","issues":[]} trailing''
      ''{"document":"X","issues":[]}''\<close>
    using flat_span_is_first_balanced [of "''blah blah ''" \<open>''"document":"X","issues":[]''\<close> "'' trailing''"]
    by simp
  have l1: \<open>json_loads ''{"document":"X","issues":[]}''
      = Inr (JObj [(''document'', JStr ''X''), (''issues'', JArr [])])\<close>
    by code_simp
  have e1: \<open>extract_json_from_text json_loads ''blah blah {"document":"X","issues":[]} trailing''
      = Inr (JObj [(''document'', JStr ''X''), (''issues'', JArr [])])\<close>
    using extract_json_first_balanced_span [of json_loads \<open>''blah blah {"document":"X","issues":[]} trailing''\<close>]
      s1 l1 by (metis sum.case(2))
  have e2: "extract_json_from_text json_loads ''no braces here'' = Inr (JObj [])"
    using extract_json_first_balanced_span [of json_loads "''no braces here''"] by simp
  have "\<nexists>sp. first_balanced_span ''{ unbalanced'' sp"
    using no_closing_brace_no_span [of "''{ unbalanced''"] by simp
  then have e3: "extract_json_from_text json_loads ''{ unbalanced'' = Inr (JObj [])"
    using extract_json_first_balanced_span [of json_loads "''{ unbalanced''"] by blast
  have s4: \<open>first_balanced_span ''x {"a": "}"} y'' ''{"a": "}''\<close>
    using flat_span_is_first_balanced [of "''x ''" \<open>''"a": "''\<close> \<open>''"} y''\<close>]
    by simp
  have l4: \<open>json_loads ''{"a": "}'' = Inl ValueError\<close>
    by code_simp
  have e4: \<open>extract_json_from_text json_loads ''x {"a": "}"} y'' = Inr (JObj [])\<close>
    using extract_json_first_balanced_span [of json_loads \<open>''x {"a": "}"} y''\<close>]
      s4 l4 by (metis sum.case(1))
  from e1 e2 e3 s4 e4 show ?thesis by blast
qed

section \<open>The review of one document\<close>

lemma extract_json_returns: "\<exists>parsed. extract_json_from_text loads tx = Inr parsed"
proof (cases "\<exists>sp. first_balanced_span tx sp")
  case True
  then obtain sp where "first_balanced_span tx sp" by blast
  then have "extract_json_from_text loads tx =
      (case loads sp of Inl e \<Rightarrow> Inr (JObj []) | Inr v \<Rightarrow> Inr v)"
    by (rule extract_json_hit)
  then show ?thesis by (cases "loads sp") simp_all
next
  case False
  then show ?thesis by (simp add: extract_json_miss)
qed

lemma has_field_synthesized: "has_field (synthesized_review doc_name) ''issues''"
  by (simp add: synthesized_review_def)

text \<open>
  Claim C1, as the code has it. For every answer of the reviewer,
  \<open>run_rag_review\<close> applies the JSON extraction to the answer; when the
  extracted value is empty (no span was found, the span did not parse, or it
  parsed to an empty dict) it returns the synthesized mapping of the
  document's name and an empty list of issues, and otherwise it returns the
  extracted value as it is. So the result has a field \<open>issues\<close> exactly when
  the extraction is empty or has that field itself.
\<close>

theorem run_rag_review_synthesizes_when_empty:
  assumes "qa_run (review_prompt doc_name doc_text) = Inr resp"
  shows "\<exists>parsed. extract_json_from_text loads resp = Inr parsed
           \<and> run_rag_review qa_run loads doc_name doc_text
               = Inr (if truthy parsed then parsed else synthesized_review doc_name)
           \<and> (has_field (if truthy parsed then parsed else synthesized_review doc_name) ''issues''
                \<longleftrightarrow> \<not> truthy parsed \<or> has_field parsed ''issues'')"
proof -
  obtain parsed where p: "extract_json_from_text loads resp = Inr parsed"
    using extract_json_returns by blast
  have "run_rag_review qa_run loads doc_name doc_text
      = Inr (if truthy parsed then parsed else synthesized_review doc_name)"
    using assms p by (simp add: run_rag_review_def synthesized_review_def)
  moreover have "has_field (if truthy parsed then parsed else synthesized_review doc_name) ''issues''
      \<longleftrightarrow> \<not> truthy parsed \<or> has_field parsed ''issues''"
    using has_field_synthesized by simp
  ultimately show ?thesis using p by blast
qed

text \<open>
  An answer without JSON gives the synthesized mapping; an answer with a
  non-empty object is returned unchanged.
\<close>

theorem run_rag_review_synthesizes_when_empty_witness:
  \<open>run_rag_review (reviewer_answers ''I found no issues.'') json_loads ''UBO Declaration Form'' ''ubo declaration''
      = Inr (JObj [(''document'', JStr ''UBO Declaration Form''), (''issues'', JArr [])])
   \<and> run_rag_review (reviewer_answers ''{"document": "X"}'') json_loads ''UBO Declaration Form'' ''ubo declaration''
      = Inr (JObj [(''document'', JStr ''X'')])\<close>
proof -
  have e1: \<open>extract_json_from_text json_loads ''I found no issues.'' = Inr (JObj [])\<close>
    by code_simp
  have e2: \<open>extract_json_from_text json_loads ''{"document": "X"}'' = Inr (JObj [(''document'', JStr ''X'')])\<close>
    by code_simp
  have r1: \<open>run_rag_review (reviewer_answers ''I found no issues.'') json_loads ''UBO Declaration Form'' ''ubo declaration''
      = Inr (synthesized_review ''UBO Declaration Form'')\<close>
    using run_rag_review_synthesizes_when_empty
      [where qa_run = \<open>reviewer_answers ''I found no issues.''\<close> and resp = \<open>''I found no issues.''\<close>
         and loads = json_loads and doc_name = "''UBO Declaration Form''" and doc_text = "''ubo declaration''"]
      e1
    by (auto simp: reviewer_answers_def)
  have r2: \<open>run_rag_review (reviewer_answers ''{"document": "X"}'') json_loads ''UBO Declaration Form'' ''ubo declaration''
      = Inr (JObj [(''document'', JStr ''X'')])\<close>
    using run_rag_review_synthesizes_when_empty
      [where qa_run = \<open>reviewer_answers ''{"document": "X"}''\<close> and resp = \<open>''{"document": "X"}''\<close>
         and loads = json_loads and doc_name = "''UBO Declaration Form''" and doc_text = "''ubo declaration''"]
      e2
    by (auto simp: reviewer_answers_def)
  from r1 r2 show ?thesis by (simp add: synthesized_review_def)
qed

text \<open>
  Claim C1 as it is stated fails: the reviewer answers with an object that
  has a \<open>document\<close> and no \<open>issues\<close>. The extraction lacks the field, and the
  function returns it and not the synthesized mapping.
\<close>

theorem run_rag_review_issues_counterexample:
  \<open>extract_json_from_text json_loads ''{"document": "X"}'' = Inr (JObj [(''document'', JStr ''X'')])
   \<and> \<not> has_field (JObj [(''document'', JStr ''X'')]) ''issues''
   \<and> run_rag_review (reviewer_answers ''{"document": "X"}'') json_loads ''Articles of Association'' ''articles''
       = Inr (JObj [(''document'', JStr ''X'')])
   \<and> JObj [(''document'', JStr ''X'')] \<noteq> synthesized_review ''Articles of Association''\<close>
proof -
  have e: \<open>extract_json_from_text json_loads ''{"document": "X"}'' = Inr (JObj [(''document'', JStr ''X'')])\<close>
    by code_simp
  then have \<open>run_rag_review (reviewer_answers ''{"document": "X"}'') json_loads ''Articles of Association'' ''articles''
       = Inr (JObj [(''document'', JStr ''X'')])\<close>
    by (simp add: run_rag_review_def reviewer_answers_def)
  with e show ?thesis by (simp add: synthesized_review_def)
qed

section \<open>The annotator\<close>

lemma xml_compatible_append [simp]:
  "xml_compatible (s @ t) \<longleftrightarrow> xml_compatible s \<and> xml_compatible t"
  by (simp add: xml_compatible_def)

lemma docx_text_append [simp]: "docx_text (s @ t) = docx_text s @ docx_text t"
  by (simp add: docx_text_def)

lemma xml_compatible_blank [simp]: "xml_compatible (CHR '' '' # t) \<longleftrightarrow> xml_compatible t"
  by (simp add: xml_compatible_def)

lemma docx_text_blank [simp]: "docx_text (CHR '' '' # t) = CHR '' '' # docx_text t"
  by (simp add: docx_text_def)


lemma docx_text_Nil_iff [simp]: "docx_text t = [] \<longleftrightarrow> t = []"
  by (simp add: docx_text_def)

lemma docx_text_suggestion:
  "docx_text (''[Suggestion: '' @ s @ '']'') = ''[Suggestion: '' @ docx_text s @ '']''"
  by (simp add: docx_text_def)



lemma issue_snippet_dict: "issue_snippet issue = Inr snippet \<Longrightarrow> \<exists>kvs. issue = JObj kvs"
  by (cases issue) (simp_all add: issue_snippet_def issue_section_def)


lemma issue_comment_form:
  "issue_comment str_of issue = Inr comment \<Longrightarrow> \<exists>suggestion. comment = ''[Suggestion: '' @ suggestion @ '']''"
  by (cases issue) (auto simp: issue_comment_def)








lemma extends_by_remarks_refl: "extends_by_remarks paras paras"
  unfolding extends_by_remarks_def
proof (intro conjI allI impI)
  fix i assume "i < length paras"
  have "paras ! i = paras ! i @ [] \<and> (\<forall>r \<in> set []. is_remark (run_text r) \<and> highlight_color r = Some YELLOW)"
    by simp
  then show "\<exists>rs. paras ! i = paras ! i @ rs
      \<and> (\<forall>r \<in> set rs. is_remark (run_text r) \<and> highlight_color r = Some YELLOW)"
    by blast
qed simp

lemma extends_by_remarks_trans:
  assumes "extends_by_remarks a b" "extends_by_remarks b c"
  shows "extends_by_remarks a c"
  unfolding extends_by_remarks_def
proof (intro conjI allI impI)
  show "length a \<le> length c"
    using assms unfolding extends_by_remarks_def by linarith
next
  fix i assume i: "i < length a"
  with assms(1) obtain rs where rs: "b ! i = a ! i @ rs"
      "\<forall>r \<in> set rs. is_remark (run_text r) \<and> highlight_color r = Some YELLOW"
    unfolding extends_by_remarks_def by blast
  from i assms(1) have "i < length b" unfolding extends_by_remarks_def by linarith
  with assms(2) obtain rs' where rs': "c ! i = b ! i @ rs'"
      "\<forall>r \<in> set rs'. is_remark (run_text r) \<and> highlight_color r = Some YELLOW"
    unfolding extends_by_remarks_def by blast
  from rs rs' have "c ! i = a ! i @ (rs @ rs')
      \<and> (\<forall>r \<in> set (rs @ rs'). is_remark (run_text r) \<and> highlight_color r = Some YELLOW)"
    by auto
  then show "\<exists>rs. c ! i = a ! i @ rs
      \<and> (\<forall>r \<in> set rs. is_remark (run_text r) \<and> highlight_color r = Some YELLOW)"
    by blast
qed

lemma extends_by_remarks_snoc: "extends_by_remarks paras (paras @ [p])"
  unfolding extends_by_remarks_def
proof (intro conjI allI impI)
  fix i assume "i < length paras"
  then have "(paras @ [p]) ! i = paras ! i @ []
      \<and> (\<forall>r \<in> set []. is_remark (run_text r) \<and> highlight_color r = Some YELLOW)"
    by (simp add: nth_append)
  then show "\<exists>rs. (paras @ [p]) ! i = paras ! i @ rs
      \<and> (\<forall>r \<in> set rs. is_remark (run_text r) \<and> highlight_color r = Some YELLOW)"
    by blast
qed simp

lemma extends_by_remarks_update:
  assumes "is_remark t"
  shows "extends_by_remarks paras (paras[k := paras ! k @ [remark_run t]])"
  unfolding extends_by_remarks_def
proof (intro conjI allI impI)
  fix i assume i: "i < length paras"
  let ?rs = "if i = k then [remark_run t] else []"
  have "(paras[k := paras ! k @ [remark_run t]]) ! i = paras ! i @ ?rs"
    using i by (simp add: nth_list_update)
  moreover have "\<forall>r \<in> set ?rs. is_remark (run_text r) \<and> highlight_color r = Some YELLOW"
    using assms by (simp add: remark_run_def)
  ultimately show "\<exists>rs. (paras[k := paras ! k @ [remark_run t]]) ! i = paras ! i @ rs
      \<and> (\<forall>r \<in> set rs. is_remark (run_text r) \<and> highlight_color r = Some YELLOW)"
    by blast
qed simp

lemma scan_paragraphs_Some:
  assumes "scan_paragraphs snippet comment paras = Inr (Some paras')"
  shows "\<exists>k. paras' = paras[k := paras ! k @ [remark_run ('' '' @ docx_text comment)]]"
  using assms
proof (induction paras arbitrary: paras')
  case Nil
  then show ?case by simp
next
  case (Cons p paras)
  show ?case
  proof (cases "snippet \<noteq> [] \<and> sublist snippet (lower (para_text p))")
    case True
    with Cons.prems
    have "paras' = (p # paras)[0 := (p # paras) ! 0 @ [remark_run ('' '' @ docx_text comment)]]"
      by (auto simp: add_run_highlighted_def remark_run_def split: if_splits)
    then show ?thesis by blast
  next
    case False
    with Cons.prems obtain ps where ps: "scan_paragraphs snippet comment paras = Inr (Some ps)"
        "paras' = p # ps"
      by (auto split: sum.splits option.splits)
    from Cons.IH [OF ps(1)] obtain k
      where "ps = paras[k := paras ! k @ [remark_run ('' '' @ docx_text comment)]]"
      by blast
    with ps(2)
    have "paras' = (p # paras)[Suc k := (p # paras) ! Suc k @ [remark_run ('' '' @ docx_text comment)]]"
      by simp
    then show ?thesis by blast
  qed
qed

lemma annotate_issue_extends:
  assumes "annotate_issue str_of paras issue = Inr paras'"
  shows "extends_by_remarks paras paras'"
proof -
  from assms obtain snippet comment where sc: "issue_snippet issue = Inr snippet"
      "issue_comment str_of issue = Inr comment"
    by (auto simp: annotate_issue_def split: sum.splits)
  from issue_comment_form [OF sc(2)] obtain suggestion
    where "comment = ''[Suggestion: '' @ suggestion @ '']''" by blast
  then have "'' '' @ docx_text comment = '' [Suggestion: '' @ docx_text suggestion @ '']''"
    by (simp add: docx_text_def)
  then have rem: "is_remark ('' '' @ docx_text comment)"
    unfolding is_remark_def by (rule exI [of _ "docx_text suggestion"])
  show ?thesis
  proof (cases "scan_paragraphs snippet comment paras")
    case (Inl e)
    with assms sc show ?thesis by (simp add: annotate_issue_def)
  next
    case (Inr found)
    show ?thesis
    proof (cases found)
      case None
      with Inr assms sc have "\<exists>p. paras' = paras @ [p]"
        by (auto simp: annotate_issue_def split: sum.splits)
      then show ?thesis using extends_by_remarks_snoc by blast
    next
      case (Some ps)
      with Inr assms sc have "paras' = ps" by (simp add: annotate_issue_def)
      with scan_paragraphs_Some Inr Some obtain k
        where "paras' = paras[k := paras ! k @ [remark_run ('' '' @ docx_text comment)]]" by blast
      then show ?thesis using extends_by_remarks_update [OF rem] by simp
    qed
  qed
qed

lemma annotate_loop_extends:
  "annotate_loop str_of paras issues = Inr paras' \<Longrightarrow> extends_by_remarks paras paras'"
proof (induction issues arbitrary: paras)
  case Nil
  then show ?case by (simp add: extends_by_remarks_refl)
next
  case (Cons issue issues)
  then obtain mid where mid: "annotate_issue str_of paras issue = Inr mid"
      "annotate_loop str_of mid issues = Inr paras'"
    by (auto split: sum.splits)
  from annotate_issue_extends [OF mid(1)] Cons.IH [OF mid(2)]
  show ?case by (rule extends_by_remarks_trans)
qed

lemma annotate_docx_inline_extends:
  assumes "annotate_docx_inline str_of doc review = Inr doc'"
  shows "extends_by_remarks (paragraphs doc) (paragraphs doc')" and "tables doc' = tables doc"
proof -
  from assms obtain xs paras where l: "annotate_loop str_of (paragraphs doc) xs = Inr paras"
      and d: "doc' = doc\<lparr>paragraphs := paras\<rparr>"
    by (auto simp: annotate_docx_inline_def split: sum.splits)
  from annotate_loop_extends [OF l] d show "extends_by_remarks (paragraphs doc) (paragraphs doc')"
    by simp
  from d show "tables doc' = tables doc" by simp
qed

lemma annotate_docx_inline_no_issues:
  "map_of kvs ''issues'' = None \<Longrightarrow> annotate_docx_inline str_of doc (JObj kvs) = Inr doc"
  by (simp add: annotate_docx_inline_def)

lemma para_text_append: "para_text (p @ rs) = para_text p @ concat (map run_text rs)"
  by (simp add: para_text_def)





text \<open>
  Claim C10. Whenever \<open>annotate_docx_inline\<close> returns a document, for a
  review of any shape, the document has at least as many paragraphs as
  before, and the paragraph at each old position has the old text followed
  by remarks of the form \<open> [Suggestion: ...]\<close>, or by nothing: the old
  paragraphs keep their places and none is removed. A review without the key
  \<open>issues\<close> gives the document back unchanged.
\<close>

theorem annotate_docx_inline_keeps_paragraphs:
  "(\<forall>doc'. annotate_docx_inline str_of doc review = Inr doc' \<longrightarrow>
      length (paragraphs doc) \<le> length (paragraphs doc')
      \<and> (\<forall>i < length (paragraphs doc). \<exists>remarks.
            para_text (paragraphs doc' ! i) = para_text (paragraphs doc ! i) @ concat remarks
            \<and> (\<forall>s \<in> set remarks. is_remark s)))
   \<and> (\<forall>kvs. review = JObj kvs \<and> map_of kvs ''issues'' = None \<longrightarrow>
         annotate_docx_inline str_of doc review = Inr doc)"
proof (intro conjI allI impI)
  fix doc' assume r: "annotate_docx_inline str_of doc review = Inr doc'"
  from annotate_docx_inline_extends(1) [OF r]
  show "length (paragraphs doc) \<le> length (paragraphs doc')"
    by (simp add: extends_by_remarks_def)
  fix i assume i: "i < length (paragraphs doc)"
  with annotate_docx_inline_extends(1) [OF r] obtain rs
    where rs: "paragraphs doc' ! i = paragraphs doc ! i @ rs" "\<forall>r \<in> set rs. is_remark (run_text r)"
    unfolding extends_by_remarks_def by blast
  then have "para_text (paragraphs doc' ! i) = para_text (paragraphs doc ! i) @ concat (map run_text rs)
      \<and> (\<forall>s \<in> set (map run_text rs). is_remark s)"
    by (simp add: para_text_append)
  then show "\<exists>remarks. para_text (paragraphs doc' ! i) = para_text (paragraphs doc ! i) @ concat remarks
      \<and> (\<forall>s \<in> set remarks. is_remark s)"
    by blast
next
  fix kvs assume "review = JObj kvs \<and> map_of kvs ''issues'' = None"
  then show "annotate_docx_inline str_of doc review = Inr doc"
    by (simp add: annotate_docx_inline_no_issues)
qed

text \<open>
  A review with one issue that matches the second paragraph and one that
  matches none, and a review with no issues at all.
\<close>

theorem annotate_docx_inline_keeps_paragraphs_witness:
  "annotate_docx_inline sample_str_of two_sections
     (JObj [(''issues'',
        JArr [JObj [(''section'', JStr ''Directors''), (''suggestion'', JStr ''Add signature'')],
              JObj [(''issue'', JStr ''No registered office''), (''suggestion'', JStr ''Add address'')]])])
   = Inr \<lparr>paragraphs =
            [plain ''Section 1: Capital'',
             plain ''Section 2: Directors''
               @ [\<lparr>run_text = '' [Suggestion: Add signature]'', highlight_color = Some YELLOW\<rparr>],
             [\<lparr>run_text = ''[Suggestion: Add address]'', highlight_color = Some YELLOW\<rparr>]],
          tables = []\<rparr>
   \<and> is_remark '' [Suggestion: Add signature]''
   \<and> annotate_docx_inline sample_str_of two_sections (JObj [(''document'', JStr ''X'')]) = Inr two_sections"
proof -
  let ?review = "JObj [(''issues'',
        JArr [JObj [(''section'', JStr ''Directors''), (''suggestion'', JStr ''Add signature'')],
              JObj [(''issue'', JStr ''No registered office''), (''suggestion'', JStr ''Add address'')]])]"
  let ?out = "\<lparr>paragraphs =
            [plain ''Section 1: Capital'',
             plain ''Section 2: Directors''
               @ [\<lparr>run_text = '' [Suggestion: Add signature]'', highlight_color = Some YELLOW\<rparr>],
             [\<lparr>run_text = ''[Suggestion: Add address]'', highlight_color = Some YELLOW\<rparr>]],
          tables = []\<rparr>"
  have run: "annotate_docx_inline sample_str_of two_sections ?review = Inr ?out"
    by code_simp
  note inst = annotate_docx_inline_keeps_paragraphs [of sample_str_of two_sections]
  from inst [of ?review] run have "\<forall>i < length (paragraphs two_sections). \<exists>remarks.
      para_text (paragraphs ?out ! i) = para_text (paragraphs two_sections ! i) @ concat remarks
      \<and> (\<forall>s \<in> set remarks. is_remark s)"
    by blast
  moreover have "1 < length (paragraphs two_sections)" by (simp add: two_sections_def)
  ultimately obtain remarks where rm:
      "para_text (paragraphs ?out ! 1) = para_text (paragraphs two_sections ! 1) @ concat remarks"
      "\<forall>s \<in> set remarks. is_remark s"
    by blast
  have rem: "is_remark '' [Suggestion: Add signature]''"
    unfolding is_remark_def by (rule exI [of _ "''Add signature''"]) simp
  have "map_of [(''document'', JStr ''X'')] ''issues'' = None" by simp
  with inst [of "JObj [(''document'', JStr ''X'')]"]
  have none: "annotate_docx_inline sample_str_of two_sections (JObj [(''document'', JStr ''X'')]) = Inr two_sections"
    by blast
  from run rem none rm show ?thesis by blast
qed

section \<open>The report of a batch\<close>

lemma tag_issue_Inr:
  "tag_issue doc_type i = Inr t \<Longrightarrow> \<exists>kvs. i = JObj kvs \<and> t = tagged_issue doc_type kvs"
  by (cases i) (simp_all add: tag_issue_def tagged_issue_def field_or_empty_def)

lemma tag_issues_Inr:
  "tag_issues doc_type xs = Inr ts \<Longrightarrow>
     \<exists>kvss. xs = map JObj kvss \<and> ts = map (tagged_issue doc_type) kvss"
proof (induction xs arbitrary: ts)
  case Nil
  then show ?case by simp
next
  case (Cons i xs)
  then obtain t ts' where t: "tag_issue doc_type i = Inr t" "tag_issues doc_type xs = Inr ts'"
      "ts = t # ts'"
    by (auto split: sum.splits)
  from tag_issue_Inr [OF t(1)] obtain kvs where kvs: "i = JObj kvs" "t = tagged_issue doc_type kvs"
    by blast
  from Cons.IH [OF t(2)] obtain kvss where kvss: "xs = map JObj kvss"
      "ts' = map (tagged_issue doc_type) kvss"
    by blast
  from kvs kvss t(3) have "i # xs = map JObj (kvs # kvss) \<and> ts = map (tagged_issue doc_type) (kvs # kvss)"
    by simp
  then show ?case by (rule exI [of _ "kvs # kvss"])
qed

lemma review_loop_issues:
  assumes "review_loop qa_run loads str_of files (dts, acc, rf) = Inr (dts', acc', rf')"
  shows "\<exists>kvss. list_all2 (\<lambda>f kvs. reviewer_issues qa_run loads (snd f) = Inr (map JObj kvs)) files kvss
      \<and> acc' = acc @ concat (map (\<lambda>(f, kvs). map (tagged_issue (doc_type_of (snd f))) kvs) (zip files kvss))
      \<and> dts' = dts @ map (\<lambda>f. doc_type_of (snd f)) files"
  using assms
proof (induction files arbitrary: dts acc rf)
  case Nil
  then show ?case by simp
next
  case (Cons f files)
  obtain name raw where f: "f = (name, raw)" by (cases f)
  let ?text = "extract_text_from_docx_bytes raw"
  let ?dt = "doc_type_of raw"
  from Cons.prems obtain review_json issues xs tagged reviewed_bytes
    where st: "run_rag_review qa_run loads ?dt ?text = Inr review_json"
      "py_get review_json ''issues'' (JArr []) = Inr issues"
      "py_iter issues = Inr xs"
      "tag_issues ?dt xs = Inr tagged"
      "review_loop qa_run loads str_of files
         (dts @ [?dt], acc @ tagged, rf @ [(name, reviewed_bytes)]) = Inr (dts', acc', rf')"
    by (auto simp: f doc_type_of_def Let_def split: sum.splits)
  from tag_issues_Inr [OF st(4)] obtain kvs where kvs: "xs = map JObj kvs"
      "tagged = map (tagged_issue ?dt) kvs"
    by blast
  have here: "reviewer_issues qa_run loads (snd f) = Inr (map JObj kvs)"
    using st(1-3) kvs(1) by (simp add: reviewer_issues_def f)
  from Cons.IH [OF st(5)] obtain kvss
    where ih: "list_all2 (\<lambda>f kvs. reviewer_issues qa_run loads (snd f) = Inr (map JObj kvs)) files kvss"
      "acc' = (acc @ tagged) @ concat (map (\<lambda>(f, kvs). map (tagged_issue (doc_type_of (snd f))) kvs) (zip files kvss))"
      "dts' = (dts @ [?dt]) @ map (\<lambda>f. doc_type_of (snd f)) files"
    by blast
  have "list_all2 (\<lambda>f kvs. reviewer_issues qa_run loads (snd f) = Inr (map JObj kvs)) (f # files) (kvs # kvss)"
    using here ih(1) by simp
  moreover have "acc' = acc @ concat (map (\<lambda>(f, kvs). map (tagged_issue (doc_type_of (snd f))) kvs)
      (zip (f # files) (kvs # kvss)))"
    using ih(2) kvs(2) by (simp add: f)
  moreover have "dts' = dts @ map (\<lambda>f. doc_type_of (snd f)) (f # files)"
    using ih(3) by (simp add: f)
  ultimately show ?case by blast
qed

lemma tagged_issue_document:
  "py_get (tagged_issue doc_type kvs) ''document'' JNull = Inr (JStr doc_type)"
  by (simp add: tagged_issue_def)

text \<open>
  Claim C7. Whenever the review of a batch returns its results, there is for
  each uploaded document, in the order of the upload, the list of issues the
  reviewer returned for it, and the \<open>issues_found\<close> of the report is the
  concatenation, document after document, of these lists with every issue
  in its place and tagged: its field \<open>document\<close> is the classified type of
  the document it comes from.
\<close>

theorem run_review_issues_in_upload_order:
  assumes "run_review qa_run loads str_of docx_files = Inr res"
  shows "\<exists>kvss.
      list_all2 (\<lambda>f kvs. reviewer_issues qa_run loads (snd f) = Inr (map JObj kvs)) docx_files kvss
      \<and> issues_found (results_json res) =
          concat (map (\<lambda>(f, kvs). map (tagged_issue (doc_type_of (snd f))) kvs) (zip docx_files kvss))
      \<and> (\<forall>f \<in> set docx_files. \<forall>kvs.
            py_get (tagged_issue (doc_type_of (snd f)) kvs) ''document'' JNull
              = Inr (JStr (classify_document (Some (extract_text_from_docx_bytes (snd f))))))"
proof -
  from assms obtain dts acc rf
    where l: "review_loop qa_run loads str_of docx_files ([], [], []) = Inr (dts, acc, rf)"
      and r: "issues_found (results_json res) = acc"
    by (auto simp: run_review_def split: option.splits sum.splits)
  from review_loop_issues [OF l] obtain kvss
    where "list_all2 (\<lambda>f kvs. reviewer_issues qa_run loads (snd f) = Inr (map JObj kvs)) docx_files kvss"
      "acc = concat (map (\<lambda>(f, kvs). map (tagged_issue (doc_type_of (snd f))) kvs) (zip docx_files kvss))"
    by auto
  with r show ?thesis
    using tagged_issue_document by (auto simp: doc_type_of_def)
qed

text \<open>
  Two documents, one of each of the first two types, and a reviewer that
  names two issues for every document.
\<close>

theorem run_review_issues_in_upload_order_witness:
  \<open>\<exists>res. run_review (reviewer_answers ''Review: {"issues": [{"issue": "A"}, {"issue": "B"}]}'')
            json_loads sample_str_of [(''a.docx'', articles_doc), (''m.docx'', memorandum_doc)] = Inr res
     \<and> issues_found (results_json res) =
         [tagged_issue ''Articles of Association'' [(''issue'', JStr ''A'')],
          tagged_issue ''Articles of Association'' [(''issue'', JStr ''B'')],
          tagged_issue ''Memorandum of Association'' [(''issue'', JStr ''A'')],
          tagged_issue ''Memorandum of Association'' [(''issue'', JStr ''B'')]]\<close>
proof -
  let ?qa = \<open>reviewer_answers ''Review: {"issues": [{"issue": "A"}, {"issue": "B"}]}''\<close>
  let ?files = "[(''a.docx'', articles_doc), (''m.docx'', memorandum_doc)]"
  have ev: "(case run_review ?qa json_loads sample_str_of ?files of
               Inl e \<Rightarrow> None
             | Inr res \<Rightarrow> Some (issues_found (results_json res))) =
      Some [tagged_issue ''Articles of Association'' [(''issue'', JStr ''A'')],
            tagged_issue ''Articles of Association'' [(''issue'', JStr ''B'')],
            tagged_issue ''Memorandum of Association'' [(''issue'', JStr ''A'')],
            tagged_issue ''Memorandum of Association'' [(''issue'', JStr ''B'')]]"
    by code_simp
  then obtain res where res: "run_review ?qa json_loads sample_str_of ?files = Inr res"
    by (cases "run_review ?qa json_loads sample_str_of ?files") simp_all
  from run_review_issues_in_upload_order [OF res] obtain kvss
    where k: "list_all2 (\<lambda>f kvs. reviewer_issues ?qa json_loads (snd f) = Inr (map JObj kvs)) ?files kvss"
      "issues_found (results_json res) =
         concat (map (\<lambda>(f, kvs). map (tagged_issue (doc_type_of (snd f))) kvs) (zip ?files kvss))"
    by blast
  from k(1) obtain ka km where kvss: "kvss = [ka, km]"
      "reviewer_issues ?qa json_loads articles_doc = Inr (map JObj ka)"
      "reviewer_issues ?qa json_loads memorandum_doc = Inr (map JObj km)"
    by (auto simp: list_all2_Cons1)
  have "reviewer_issues ?qa json_loads articles_doc = Inr (map JObj [[(''issue'', JStr ''A'')], [(''issue'', JStr ''B'')]])"
    "reviewer_issues ?qa json_loads memorandum_doc = Inr (map JObj [[(''issue'', JStr ''A'')], [(''issue'', JStr ''B'')]])"
    by code_simp+
  with kvss(2,3) have "map JObj ka = map JObj [[(''issue'', JStr ''A'')], [(''issue'', JStr ''B'')]]"
    "map JObj km = map JObj [[(''issue'', JStr ''A'')], [(''issue'', JStr ''B'')]]"
    by simp_all
  then have kk: "ka = [[(''issue'', JStr ''A'')], [(''issue'', JStr ''B'')]]"
    "km = [[(''issue'', JStr ''A'')], [(''issue'', JStr ''B'')]]"
    by (auto simp: map_eq_Cons_conv)
  have dt: "doc_type_of articles_doc = ''Articles of Association''"
    "doc_type_of memorandum_doc = ''Memorandum of Association''"
    by code_simp+
  from k(2) kvss(1) kk dt have "issues_found (results_json res) =
      [tagged_issue ''Articles of Association'' [(''issue'', JStr ''A'')],
       tagged_issue ''Articles of Association'' [(''issue'', JStr ''B'')],
       tagged_issue ''Memorandum of Association'' [(''issue'', JStr ''A'')],
       tagged_issue ''Memorandum of Association'' [(''issue'', JStr ''B'')]]"
    by simp
  with res show ?thesis by blast
qed

end
